theory Spec2Isabelle
  imports Main "HOL-Library.Word"
begin

unbundle bit_operations_syntax

section \<open>Counts and capped addition\<close>

text \<open>
  \<^verbatim>\<open>type Count uint64\<close>: a count of something, capped at \<^verbatim>\<open>math.MaxUint64\<close>.
  Object types and object ids are byte strings (\<^verbatim>\<open>type Type string\<close>,
  \<^verbatim>\<open>type Oid [20]byte\<close>).
\<close>

type_synonym Count = "64 word"
type_synonym Type = string
type_synonym Oid = string

definition MaxUint64 :: Count where
  "MaxUint64 = 18446744073709551615"

definition addCapped :: "Count \<Rightarrow> Count \<Rightarrow> Count" where
  "addCapped n1 n2 = (let n = n1 + n2 in if n < n1 then MaxUint64 else n)"

section \<open>Errors and panics\<close>

text \<open>
  Go errors are values; every \<^verbatim>\<open>errors.New\<close>, \<^verbatim>\<open>fmt.Errorf\<close> and library error the
  package can return is a constructor. A run-time panic is a separate outcome: it
  unwinds the process and is never handed to the caller as an error value.
\<close>

datatype error =
    EOF
  | MissingObject Oid
  | UnexpectedTypeForObject Type Oid
  | ErrSyntax string
  | ErrRange string
  | NoSPAfterMode
  | NoNULAfterFilename
  | TreeEntryEndsUnexpectedly
  | NotABlob Oid Type
  | ObjectHasUnexpectedType Oid Type
  | NotYetKnown

datatype panic =
    IndexOutOfRange
  | SliceBoundsOutOfRange
  | MakesliceLenOutOfRange
  | ObjectHasUnknownType Oid
  | QueueTreeDidntFillTree

datatype 'a outcome = Ok 'a | Err error | Panic panic

section \<open>Library functions the package calls\<close>

definition LF :: char where "LF = CHR 0x0A"
definition NUL :: char where "NUL = CHR 0x00"
definition SP :: char where "SP = CHR 0x20"

text \<open>
  \<^verbatim>\<open>bufio.Reader.ReadString(delim)\<close> on the bytes still to come: the bytes up to and
  including the first delimiter and the bytes left, or \<^verbatim>\<open>io.EOF\<close> when the stream ends
  before a delimiter.
\<close>

definition ReadString :: "char \<Rightarrow> string \<Rightarrow> error + (string \<times> string)" where
  "ReadString delim s =
     (if delim \<in> set s
      then Inr (takeWhile (\<lambda>c. c \<noteq> delim) s @ [delim], tl (dropWhile (\<lambda>c. c \<noteq> delim) s))
      else Inl EOF)"

text \<open>\<^verbatim>\<open>strings.Split(s, " ")\<close> for a one-byte separator: one more word than separators.\<close>

primrec Split :: "string \<Rightarrow> char \<Rightarrow> string list" where
  "Split [] sep = [[]]"
| "Split (c # cs) sep =
     (if c = sep then [] # Split cs sep
      else (case Split cs sep of [] \<Rightarrow> [[c]] | w # ws \<Rightarrow> (c # w) # ws))"

text \<open>Indexing a slice: Go panics out of range.\<close>

definition index :: "'a list \<Rightarrow> nat \<Rightarrow> 'a option" where
  "index xs i = (if i < length xs then Some (xs ! i) else None)"

text \<open>\<^verbatim>\<open>bytes.IndexByte\<close>: the position of the first occurrence, \<open>None\<close> for Go's \<open>-1\<close>.\<close>

definition IndexByte :: "string \<Rightarrow> char \<Rightarrow> nat option" where
  "IndexByte s c = (if c \<in> set s then Some (length (takeWhile (\<lambda>x. x \<noteq> c) s)) else None)"

text \<open>
  \<^verbatim>\<open>strconv.ParseUint(s, base, bitSize)\<close> for an explicit base of at most 10: the empty
  string and any byte that is not a digit of the base are syntax errors, a value that
  does not fit \<open>bitSize\<close> bits is a range error; the scan is left to right and stops at
  the first error.
\<close>

definition digitVal :: "char \<Rightarrow> nat option" where
  "digitVal c = (if 48 \<le> (of_char c :: nat) \<and> (of_char c :: nat) \<le> 57
                 then Some (of_char c - 48) else None)"

fun ParseUint_loop :: "string \<Rightarrow> nat \<Rightarrow> nat \<Rightarrow> string \<Rightarrow> nat \<Rightarrow> error + nat" where
  "ParseUint_loop s0 base bitSize [] n = Inr n"
| "ParseUint_loop s0 base bitSize (c # cs) n =
     (case digitVal c of
        None \<Rightarrow> Inl (ErrSyntax s0)
      | Some d \<Rightarrow>
          if d \<ge> base then Inl (ErrSyntax s0)
          else if n * base + d \<ge> 2 ^ bitSize then Inl (ErrRange s0)
          else ParseUint_loop s0 base bitSize cs (n * base + d))"

definition ParseUint :: "string \<Rightarrow> nat \<Rightarrow> nat \<Rightarrow> error + nat" where
  "ParseUint s base bitSize =
     (if s = [] then Inl (ErrSyntax s) else ParseUint_loop s base bitSize s 0)"

section \<open>The store client\<close>

text \<open>
  The repository holds two pipes to \<^verbatim>\<open>git cat-file\<close>: \<^verbatim>\<open>--batch-check\<close> answers a
  request with a header line, \<^verbatim>\<open>--batch\<close> with a header line and the object's bytes.
  The store is immutable, so each pipe is the function from the requested id to the
  bytes the process sends in answer.
\<close>

record Repository =
  checkStdout :: "Oid \<Rightarrow> string"
  batchStdout :: "Oid \<Rightarrow> string"

text \<open>
  \<^verbatim>\<open>ReadHeader\<close> returns \<^verbatim>\<open>(Type, Count, error)\<close>; with an error the other two are
  the placeholders \<^verbatim>\<open>"missing", 0\<close>, which no caller reads. \<^verbatim>\<open>words[1]\<close> and
  \<^verbatim>\<open>words[2]\<close> are unchecked index expressions. The size is parsed with bit size 0,
  the width of \<^verbatim>\<open>uint\<close>: 64 bits.
\<close>

definition ReadHeader :: "Repository \<Rightarrow> Oid \<Rightarrow> (Type \<times> Count) outcome" where
  "ReadHeader repo oid =
     (case ReadString LF (checkStdout repo oid) of
        Inl err \<Rightarrow> Err err
      | Inr (header, rest) \<Rightarrow>
          (case index (Split (butlast header) SP) 1 of
             None \<Rightarrow> Panic IndexOutOfRange
           | Some w1 \<Rightarrow>
               if w1 = ''missing'' then Err (MissingObject oid)
               else (case index (Split (butlast header) SP) 2 of
                       None \<Rightarrow> Panic IndexOutOfRange
                     | Some w2 \<Rightarrow>
                         (case ParseUint w2 10 64 of
                            Inl err \<Rightarrow> Err err
                          | Inr sz \<Rightarrow> Ok (w1, of_nat sz)))))"

text \<open>
  \<^verbatim>\<open>ReadTree\<close>: for a tree, \<^verbatim>\<open>make([]byte, size+1)\<close> (the sum wraps in \<^verbatim>\<open>uint64\<close>, and
  a length that is no \<^verbatim>\<open>int\<close> panics), a loop of \<^verbatim>\<open>Read\<close> that fills the slice or stops
  at end of stream with \<^verbatim>\<open>io.EOF\<close>, and \<^verbatim>\<open>data[:len(data)-1]\<close>, which panics on the empty
  slice. \<^verbatim>\<open>Tree\<close> has the one field \<^verbatim>\<open>data\<close>. Two things are left out: bytes that a call
  leaves unread on the pipe (the branch for another type returns without reading the
  object), which a later call on the same repository would meet, and the limit of
  \<^verbatim>\<open>make\<close> below \<open>2^63\<close>, which depends on the machine; a payload that is returned is
  shorter than \<open>2^63\<close> bytes either way.
\<close>

type_synonym Tree = string

definition ReadTree :: "Repository \<Rightarrow> Oid \<Rightarrow> Tree outcome" where
  "ReadTree repo oid =
     (case ReadString LF (batchStdout repo oid) of
        Inl err \<Rightarrow> Err err
      | Inr (header, rest) \<Rightarrow>
          (case index (Split (butlast header) SP) 1 of
             None \<Rightarrow> Panic IndexOutOfRange
           | Some w1 \<Rightarrow>
               if w1 = ''missing'' then Err (MissingObject oid)
               else if w1 = ''tree'' then
                 (case index (Split (butlast header) SP) 2 of
                    None \<Rightarrow> Panic IndexOutOfRange
                  | Some w2 \<Rightarrow>
                      (case ParseUint w2 10 64 of
                         Inl err \<Rightarrow> Err err
                       | Inr sz \<Rightarrow>
                           if 2 ^ 63 \<le> unat ((of_nat sz :: 64 word) + 1)
                             then Panic MakesliceLenOutOfRange
                           else if length rest < unat ((of_nat sz :: 64 word) + 1)
                             then Err EOF
                           else if unat ((of_nat sz :: 64 word) + 1) = 0
                             then Panic SliceBoundsOutOfRange
                           else Ok (butlast (take (unat ((of_nat sz :: 64 word) + 1)) rest))))
               else Err (UnexpectedTypeForObject w1 oid)))"

section \<open>The tree decoder\<close>

text \<open>
  \<^verbatim>\<open>TreeEntry\<close>; its field \<^verbatim>\<open>Type\<close> is never written or read. \<^verbatim>\<open>Filemode\<close> is a
  \<^verbatim>\<open>uint\<close>. The iterator is the unread part of the payload.
\<close>

record TreeEntry =
  Name :: string
  Oid :: Oid
  Filemode :: "64 word"

definition NextEntry :: "string \<Rightarrow> error + (TreeEntry \<times> string) option" where
  "NextEntry data =
     (if length data = 0 then Inr None
      else case IndexByte data SP of
        None \<Rightarrow> Inl NoSPAfterMode
      | Some spAt \<Rightarrow>
          (case ParseUint (take spAt data) 8 32 of
             Inl err \<Rightarrow> Inl err
           | Inr mode \<Rightarrow>
               (case IndexByte (drop (spAt + 1) data) NUL of
                  None \<Rightarrow> Inl NoNULAfterFilename
                | Some nulAt \<Rightarrow>
                    if length (drop (nulAt + 1) (drop (spAt + 1) data)) < 20
                    then Inl TreeEntryEndsUnexpectedly
                    else Inr (Some
                      (\<lparr>Name = take nulAt (drop (spAt + 1) data),
                        Oid = take 20 (drop (nulAt + 1) (drop (spAt + 1) data)),
                        Filemode = of_nat mode\<rparr>,
                       drop 20 (drop (nulAt + 1) (drop (spAt + 1) data)))))))"

section \<open>Tree sizes\<close>

record TreeSize =
  MaxDepth :: Count
  MaxPathLength :: Count
  TreeCount :: Count
  MaxTreeEntries :: Count
  BlobCount :: Count
  BlobSize :: Count
  LinkCount :: Count
  SubmoduleCount :: Count

type_synonym BlobSize = Count

text \<open>The zero value \<^verbatim>\<open>TreeSize{}\<close>.\<close>

definition TreeSize_zero :: TreeSize where
  "TreeSize_zero = \<lparr>MaxDepth = 0, MaxPathLength = 0, TreeCount = 0, MaxTreeEntries = 0,
     BlobCount = 0, BlobSize = 0, LinkCount = 0, SubmoduleCount = 0\<rparr>"

text \<open>The methods on \<^verbatim>\<open>*TreeSize\<close> take the receiver last and return it updated.\<close>

definition recordDepth :: "Count \<Rightarrow> TreeSize \<Rightarrow> TreeSize" where
  "recordDepth maxDepth s = (if maxDepth > MaxDepth s then s\<lparr>MaxDepth := maxDepth\<rparr> else s)"

definition recordPathLength :: "Count \<Rightarrow> TreeSize \<Rightarrow> TreeSize" where
  "recordPathLength pathLength s =
     (if pathLength > MaxPathLength s then s\<lparr>MaxPathLength := pathLength\<rparr> else s)"

text \<open>\<^verbatim>\<open>Count(len(filename))\<close>: the length converted to \<^verbatim>\<open>uint64\<close>.\<close>

definition len :: "string \<Rightarrow> Count" where
  "len filename = of_nat (length filename)"

definition addDescendent :: "string \<Rightarrow> TreeSize \<Rightarrow> TreeSize \<Rightarrow> TreeSize" where
  "addDescendent filename s2 s =
     (let s = recordDepth (MaxDepth s2) s;
          s = (if MaxPathLength s2 > 0
               then recordPathLength (addCapped (len filename + 1) (MaxPathLength s2)) s
               else recordPathLength (len filename) s);
          s = s\<lparr>TreeCount := addCapped (TreeCount s) (TreeCount s2)\<rparr>;
          s = (if MaxTreeEntries s2 > MaxTreeEntries s
               then s\<lparr>MaxTreeEntries := MaxTreeEntries s2\<rparr> else s);
          s = s\<lparr>BlobCount := addCapped (BlobCount s) (BlobCount s2)\<rparr>;
          s = s\<lparr>BlobSize := addCapped (BlobSize s) (BlobSize s2)\<rparr>;
          s = s\<lparr>LinkCount := addCapped (LinkCount s) (LinkCount s2)\<rparr>
      in s\<lparr>SubmoduleCount := addCapped (SubmoduleCount s) (SubmoduleCount s2)\<rparr>)"

definition addBlob :: "string \<Rightarrow> BlobSize \<Rightarrow> TreeSize \<Rightarrow> TreeSize" where
  "addBlob filename sz s =
     (let s = recordDepth 1 s;
          s = recordPathLength (len filename) s;
          s = s\<lparr>BlobSize := addCapped (BlobSize s) sz\<rparr>
      in s\<lparr>BlobCount := addCapped (BlobCount s) 1\<rparr>)"

definition addLink :: "string \<Rightarrow> TreeSize \<Rightarrow> TreeSize" where
  "addLink filename s =
     (let s = recordDepth 1 s;
          s = recordPathLength (len filename) s
      in s\<lparr>LinkCount := addCapped (LinkCount s) 1\<rparr>)"

definition addSubmodule :: "string \<Rightarrow> TreeSize \<Rightarrow> TreeSize" where
  "addSubmodule filename s =
     (let s = recordDepth 1 s;
          s = recordPathLength (len filename) s
      in s\<lparr>SubmoduleCount := addCapped (SubmoduleCount s) 1\<rparr>)"

section \<open>The work stack\<close>

text \<open>\<^verbatim>\<open>ToDoList\<close> is a slice of ids; its top is the last element.\<close>

type_synonym ToDoList = "Oid list"

definition Length :: "ToDoList \<Rightarrow> nat" where
  "Length t = length t"

definition Push :: "Oid \<Rightarrow> ToDoList \<Rightarrow> ToDoList" where
  "Push oid t = t @ [oid]"

definition Peek :: "ToDoList \<Rightarrow> Oid" where
  "Peek t = last t"

definition Drop :: "ToDoList \<Rightarrow> ToDoList" where
  "Drop t = butlast t"

section \<open>The size cache\<close>

text \<open>
  \<^verbatim>\<open>SizeCache\<close>: the two memoization tables and the work stack. Its field \<^verbatim>\<open>repo\<close>
  points to the store client, which no method changes; the functions below take it as
  their first argument. Every method returns the cache as it leaves it, also when it
  fails.
\<close>

record SizeCache =
  treeSizes :: "Oid \<rightharpoonup> TreeSize"
  blobSizes :: "Oid \<rightharpoonup> BlobSize"
  todo :: ToDoList

definition NewSizeCache :: SizeCache where
  "NewSizeCache = \<lparr>treeSizes = Map.empty, blobSizes = Map.empty, todo = []\<rparr>"

definition SizeCache_BlobSize ::
    "Repository \<Rightarrow> SizeCache \<Rightarrow> Oid \<Rightarrow> SizeCache \<times> BlobSize outcome" where
  "SizeCache_BlobSize repo cache oid =
     (case blobSizes cache oid of
        Some sz \<Rightarrow> (cache, Ok sz)
      | None \<Rightarrow>
          (case ReadHeader repo oid of
             Err err \<Rightarrow> (cache, Err err)
           | Panic p \<Rightarrow> (cache, Panic p)
           | Ok (objectType, objectSize) \<Rightarrow>
               if objectType \<noteq> ''blob'' then (cache, Err (NotABlob oid objectType))
               else (cache\<lparr>blobSizes := (blobSizes cache)(oid \<mapsto> objectSize)\<rparr>,
                     Ok objectSize)))"

text \<open>
  The \<^verbatim>\<open>switch\<close> in the loop of \<^verbatim>\<open>queueTree\<close>, for one entry: the cache, the flag
  \<^verbatim>\<open>ok\<close> and the size so far go in and come out. The masks are the octal literals
  \<^verbatim>\<open>0170000\<close>, \<^verbatim>\<open>0040000\<close>, \<^verbatim>\<open>0160000\<close> and \<^verbatim>\<open>0120000\<close>.
\<close>

definition isTree :: "TreeEntry \<Rightarrow> bool" where
  "isTree entry \<longleftrightarrow> Filemode entry AND 61440 = 16384"

definition isCommit :: "TreeEntry \<Rightarrow> bool" where
  "isCommit entry \<longleftrightarrow> Filemode entry AND 61440 = 57344"

definition isSymlink :: "TreeEntry \<Rightarrow> bool" where
  "isSymlink entry \<longleftrightarrow> Filemode entry AND 61440 = 40960"

definition queueTree_entry ::
    "Repository \<Rightarrow> SizeCache \<Rightarrow> bool \<Rightarrow> TreeSize \<Rightarrow> TreeEntry
      \<Rightarrow> SizeCache \<times> (bool \<times> TreeSize) outcome" where
  "queueTree_entry repo cache ok sz entry =
     (if isTree entry then
        (case treeSizes cache (Oid entry) of
           Some subsize \<Rightarrow>
             (cache, Ok (ok, if ok then addDescendent (Name entry) subsize sz else sz))
         | None \<Rightarrow>
             (cache\<lparr>todo := Push (Oid entry) (todo cache)\<rparr>, Ok (False, sz)))
      else if isCommit entry then
        (cache, Ok (ok, if ok then addSubmodule (Name entry) sz else sz))
      else if isSymlink entry then
        (cache, Ok (ok, if ok then addLink (Name entry) sz else sz))
      else
        (case blobSizes cache (Oid entry) of
           Some blobSize \<Rightarrow>
             (cache, Ok (ok, if ok then addBlob (Name entry) blobSize sz else sz))
         | None \<Rightarrow>
             (case SizeCache_BlobSize repo cache (Oid entry) of
                (cache', Err err) \<Rightarrow> (cache', Err err)
              | (cache', Panic p) \<Rightarrow> (cache', Panic p)
              | (cache', Ok blobSize) \<Rightarrow>
                  (cache', Ok (ok, addBlob (Name entry) blobSize sz)))))"

text \<open>
  The \<^verbatim>\<open>for\<close> loop of \<^verbatim>\<open>queueTree\<close>: \<^verbatim>\<open>entryCount += 1\<close> is the plain \<^verbatim>\<open>uint64\<close>
  addition. It ends when the iterator is exhausted, with \<^verbatim>\<open>ok\<close>, the entry count and
  the size so far, or at the first error.
\<close>

function queueTree_loop ::
    "Repository \<Rightarrow> SizeCache \<Rightarrow> bool \<Rightarrow> Count \<Rightarrow> TreeSize \<Rightarrow> string
      \<Rightarrow> SizeCache \<times> (bool \<times> Count \<times> TreeSize) outcome" where
  "queueTree_loop repo cache ok entryCount sz data =
     (case NextEntry data of
        Inl err \<Rightarrow> (cache, Err err)
      | Inr None \<Rightarrow> (cache, Ok (ok, entryCount, sz))
      | Inr (Some (entry, data')) \<Rightarrow>
          (case queueTree_entry repo cache ok sz entry of
             (cache', Err err) \<Rightarrow> (cache', Err err)
           | (cache', Panic p) \<Rightarrow> (cache', Panic p)
           | (cache', Ok (ok', sz')) \<Rightarrow>
               queueTree_loop repo cache' ok' (entryCount + 1) sz' data'))"
  by pat_completeness auto
termination
  by (relation "measure (\<lambda>(repo, cache, ok, entryCount, sz, data). length data)")
     (auto simp: NextEntry_def split: if_splits option.splits sum.splits)

declare queueTree_loop.simps [simp del]

definition queueTree ::
    "Repository \<Rightarrow> SizeCache \<Rightarrow> Oid \<Rightarrow> SizeCache \<times> TreeSize outcome" where
  "queueTree repo cache oid =
     (case ReadTree repo oid of
        Err err \<Rightarrow> (cache, Err err)
      | Panic p \<Rightarrow> (cache, Panic p)
      | Ok tree \<Rightarrow>
          (case queueTree_loop repo cache True 0 (TreeSize_zero\<lparr>TreeCount := 1\<rparr>) tree of
             (cache', Err err) \<Rightarrow> (cache', Err err)
           | (cache', Panic p) \<Rightarrow> (cache', Panic p)
           | (cache', Ok (ok, entryCount, sz)) \<Rightarrow>
               if \<not> ok then (cache', Err NotYetKnown)
               else (cache',
                     Ok (if entryCount > MaxTreeEntries sz
                         then sz\<lparr>MaxDepth := addCapped (MaxDepth sz) 1,
                                 MaxTreeEntries := entryCount\<rparr>
                         else sz\<lparr>MaxDepth := addCapped (MaxDepth sz) 1\<rparr>))))"

text \<open>
  \<^verbatim>\<open>fill\<close> loops while the stack is not empty, and nothing in its text bounds the
  number of rounds: a run that never leaves the loop is the value \<open>None\<close>.
\<close>

partial_function (option) fill ::
    "Repository \<Rightarrow> SizeCache \<Rightarrow> (SizeCache \<times> unit outcome) option" where
  "fill repo cache =
     (if Length (todo cache) \<noteq> 0 then
        (case treeSizes cache (Peek (todo cache)) of
           Some s \<Rightarrow> fill repo (cache\<lparr>todo := Drop (todo cache)\<rparr>)
         | None \<Rightarrow>
             (case queueTree repo cache (Peek (todo cache)) of
                (cache', Ok s) \<Rightarrow>
                  fill repo (cache'\<lparr>treeSizes := (treeSizes cache')(Peek (todo cache) \<mapsto> s),
                                    todo := Drop (todo cache')\<rparr>)
              | (cache', Err err) \<Rightarrow>
                  if err = NotYetKnown then fill repo cache'
                  else Some (cache', Err err)
              | (cache', Panic p) \<Rightarrow> Some (cache', Panic p)))
      else Some (cache, Ok ()))"

text \<open>
  \<^verbatim>\<open>TreeSize\<close>, the method of the cache. Its last statements, after \<^verbatim>\<open>fill\<close> has returned
  \<^verbatim>\<open>nil\<close>, look the id up again and panic when it is not there.
\<close>

definition lookupFilled :: "SizeCache \<Rightarrow> Oid \<Rightarrow> TreeSize outcome" where
  "lookupFilled cache oid =
     (case treeSizes cache oid of
        Some s \<Rightarrow> Ok s
      | None \<Rightarrow> Panic QueueTreeDidntFillTree)"

definition SizeCache_TreeSize ::
    "Repository \<Rightarrow> SizeCache \<Rightarrow> Oid \<Rightarrow> (SizeCache \<times> TreeSize outcome) option" where
  "SizeCache_TreeSize repo cache oid =
     (case treeSizes cache oid of
        Some s \<Rightarrow> Some (cache, Ok s)
      | None \<Rightarrow>
          (case fill repo (cache\<lparr>todo := Push oid (todo cache)\<rparr>) of
             None \<Rightarrow> None
           | Some (cache', Err err) \<Rightarrow> Some (cache', Err err)
           | Some (cache', Panic p) \<Rightarrow> Some (cache', Panic p)
           | Some (cache', Ok u) \<Rightarrow> Some (cache', lookupFilled cache' oid)))"

text \<open>\<^verbatim>\<open>Size\<close> is the interface that \<^verbatim>\<open>BlobSize\<close> and \<^verbatim>\<open>TreeSize\<close> implement.\<close>

datatype Size = SizeOfBlob BlobSize | SizeOfTree TreeSize

definition SizeCache_ObjectSize ::
    "Repository \<Rightarrow> SizeCache \<Rightarrow> Oid \<Rightarrow> (SizeCache \<times> (Type \<times> Size) outcome) option" where
  "SizeCache_ObjectSize repo cache oid =
     (case ReadHeader repo oid of
        Err err \<Rightarrow> Some (cache, Err err)
      | Panic p \<Rightarrow> Some (cache, Panic p)
      | Ok (objectType, objectSize) \<Rightarrow>
          if objectType = ''blob'' then
            Some (cache\<lparr>blobSizes := (blobSizes cache)(oid \<mapsto> objectSize)\<rparr>,
                  Ok (''blob'', SizeOfBlob objectSize))
          else if objectType = ''tree'' then
            (case SizeCache_TreeSize repo cache oid of
               None \<Rightarrow> None
             | Some (cache', Ok treeSize) \<Rightarrow> Some (cache', Ok (''tree'', SizeOfTree treeSize))
             | Some (cache', Err err) \<Rightarrow> Some (cache', Err err)
             | Some (cache', Panic p) \<Rightarrow> Some (cache', Panic p))
          else if objectType = ''commit'' then
            Some (cache, Err (ObjectHasUnexpectedType oid objectType))
          else if objectType = ''tag'' then
            Some (cache, Err (ObjectHasUnexpectedType oid objectType))
          else Some (cache, Panic (ObjectHasUnknownType oid)))"

text \<open>
  Sizing the id on top of the stack: the loop stops, or it comes to a state in which the
  id has its record and has gone from the stack, with nothing lost from the table.
\<close>

definition sized :: "Repository \<Rightarrow> Oid \<Rightarrow> bool" where
  "sized repo x \<longleftrightarrow>
     (\<forall>c rest. todo c = rest @ [x] \<longrightarrow>
        (\<exists>r. fill repo c = Some r) \<or>
        (\<exists>c2. fill repo c = fill repo c2 \<and> todo c2 = rest \<and> x \<in> dom (treeSizes c2) \<and>
           treeSizes c \<subseteq>\<^sub>m treeSizes c2))"

section \<open>What a tree holds\<close>

text \<open>
  The entries the iterator yields from a payload before it stops, by \<^verbatim>\<open>NextEntry\<close>.
\<close>

function entriesOf :: "string \<Rightarrow> TreeEntry list" where
  "entriesOf data =
     (case NextEntry data of
        Inl err \<Rightarrow> []
      | Inr None \<Rightarrow> []
      | Inr (Some (entry, data')) \<Rightarrow> entry # entriesOf data')"
  by pat_completeness auto
termination
  by (relation "measure length")
     (auto simp: NextEntry_def split: if_splits option.splits sum.splits)

declare entriesOf.simps [simp del]

text \<open>The error at which the iterator stops on a payload, if it stops at one.\<close>

function firstError :: "string \<Rightarrow> error option" where
  "firstError data =
     (case NextEntry data of
        Inl err \<Rightarrow> Some err
      | Inr None \<Rightarrow> None
      | Inr (Some (entry, data')) \<Rightarrow> firstError data')"
  by pat_completeness auto
termination
  by (relation "measure length")
     (auto simp: NextEntry_def split: if_splits option.splits sum.splits)

declare firstError.simps [simp del]

text \<open>
  What one entry adds to a size, read off the tables of a cache: the branch of the
  \<^verbatim>\<open>switch\<close> of \<^verbatim>\<open>queueTree\<close> taken while \<^verbatim>\<open>ok\<close> holds and the entry's referent is
  in its table.
\<close>

definition mergeEntry :: "SizeCache \<Rightarrow> TreeSize \<Rightarrow> TreeEntry \<Rightarrow> TreeSize" where
  "mergeEntry cache sz entry =
     (if isTree entry then
        (case treeSizes cache (Oid entry) of
           Some subsize \<Rightarrow> addDescendent (Name entry) subsize sz
         | None \<Rightarrow> sz)
      else if isCommit entry then addSubmodule (Name entry) sz
      else if isSymlink entry then addLink (Name entry) sz
      else (case blobSizes cache (Oid entry) of
              Some blobSize \<Rightarrow> addBlob (Name entry) blobSize sz
            | None \<Rightarrow> sz))"

definition isBlob :: "TreeEntry \<Rightarrow> bool" where
  "isBlob entry \<longleftrightarrow> \<not> isTree entry \<and> \<not> isCommit entry \<and> \<not> isSymlink entry"

text \<open>
  A blob entry can be sized when its size is in the blob table or the store's header for
  it has the type \<^verbatim>\<open>blob\<close>; the other kinds of entry need no lookup of a size.
\<close>

definition sizable :: "Repository \<Rightarrow> SizeCache \<Rightarrow> TreeEntry \<Rightarrow> bool" where
  "sizable repo cache entry \<longleftrightarrow>
     (isBlob entry \<longrightarrow>
        blobSizes cache (Oid entry) \<noteq> None \<or>
        (case ReadHeader repo (Oid entry) of
           Ok (objectType, objectSize) \<Rightarrow> objectType = ''blob''
         | Err err \<Rightarrow> False
         | Panic p \<Rightarrow> False))"

text \<open>The subtree entries of a payload whose record a cache does not hold yet.\<close>

definition unknownSubtrees :: "SizeCache \<Rightarrow> string \<Rightarrow> Oid list" where
  "unknownSubtrees cache data =
     map Oid (filter (\<lambda>entry. isTree entry \<and> treeSizes cache (Oid entry) = None)
                (entriesOf data))"

text \<open>The last two statements of \<^verbatim>\<open>queueTree\<close>, on the size folded from the entries.\<close>

definition finalize :: "Count \<Rightarrow> TreeSize \<Rightarrow> TreeSize" where
  "finalize entryCount sz =
     (if entryCount > MaxTreeEntries sz
      then sz\<lparr>MaxDepth := addCapped (MaxDepth sz) 1, MaxTreeEntries := entryCount\<rparr>
      else sz\<lparr>MaxDepth := addCapped (MaxDepth sz) 1\<rparr>)"

text \<open>
  The subtree relation of a store: \<open>(y, x)\<close> when the payload the store delivers for the
  tree \<open>x\<close> has a subtree entry for \<open>y\<close>.
\<close>

definition subtrees :: "Repository \<Rightarrow> (Oid \<times> Oid) set" where
  "subtrees repo =
     {(y, x). \<exists>data entry. ReadTree repo x = Ok data \<and> entry \<in> set (entriesOf data) \<and>
                isTree entry \<and> Oid entry = y}"

text \<open>
  What the tables of a cache owe to the store: a blob size is the size of a header of type
  \<^verbatim>\<open>blob\<close>, and a tree record belongs to an id whose payload the store delivers.
\<close>

definition tablesFromStore :: "Repository \<Rightarrow> SizeCache \<Rightarrow> bool" where
  "tablesFromStore repo cache \<longleftrightarrow>
     (\<forall>oid sz. blobSizes cache oid = Some sz \<longrightarrow> ReadHeader repo oid = Ok (''blob'', sz)) \<and>
     (\<forall>oid s. treeSizes cache oid = Some s \<longrightarrow> (\<exists>data. ReadTree repo oid = Ok data))"

text \<open>\<^verbatim>\<open>Oid.String\<close>: lowercase hexadecimal, two digits a byte.\<close>

definition hexDigit :: "nat \<Rightarrow> char" where
  "hexDigit n = ''0123456789abcdef'' ! (n mod 16)"

definition String_Oid :: "Oid \<Rightarrow> string" where
  "String_Oid oid =
     concat (map (\<lambda>c. [hexDigit (of_char c div 16), hexDigit (of_char c mod 16)]) oid)"

section \<open>A small store\<close>

text \<open>
  A tree \<open>oT\<close> with the blob \<^verbatim>\<open>f\<close> (\<open>oF\<close>, 10 bytes) and the empty subtree \<^verbatim>\<open>d\<close> (\<open>oD\<close>);
  a tree \<open>oA\<close> with the one subtree \<^verbatim>\<open>a\<close>, which is \<open>oB\<close>, a tree with the one blob \<^verbatim>\<open>xyz\<close>;
  a tree \<open>oP\<close> with the one blob \<^verbatim>\<open>x\<close>;
  a tree \<open>oX\<close> whose second entry is cut off inside its id and whose first entry is a blob
  the store does not have, and \<open>oY\<close>, cut off in the same place behind the blob \<open>oF\<close>;
  two ids, \<open>oG\<close> and \<open>oH\<close>, that the process answers with a line of one and of two
  words. Every other id is missing.
\<close>

definition oT :: Oid where "oT = ''tttttttttttttttttttt''"
definition oF :: Oid where "oF = ''ffffffffffffffffffff''"
definition oD :: Oid where "oD = ''dddddddddddddddddddd''"
definition oA :: Oid where "oA = ''aaaaaaaaaaaaaaaaaaaa''"
definition oB :: Oid where "oB = ''bbbbbbbbbbbbbbbbbbbb''"
definition oX :: Oid where "oX = ''xxxxxxxxxxxxxxxxxxxx''"
definition oY :: Oid where "oY = ''yyyyyyyyyyyyyyyyyyyy''"
definition oM :: Oid where "oM = ''mmmmmmmmmmmmmmmmmmmm''"
definition oG :: Oid where "oG = ''gggggggggggggggggggg''"
definition oH :: Oid where "oH = ''hhhhhhhhhhhhhhhhhhhh''"
definition oP :: Oid where "oP = ''pppppppppppppppppppp''"

text \<open>
  One record of a tree payload: the mode in octal, a space, the name, a NUL and the 20
  bytes of the id.
\<close>

definition encodeEntry :: "string \<Rightarrow> string \<Rightarrow> Oid \<Rightarrow> string" where
  "encodeEntry mode name oid = mode @ [SP] @ name @ [NUL] @ oid"

definition payloadT :: string where
  "payloadT = encodeEntry ''100644'' ''f'' oF @ encodeEntry ''40000'' ''d'' oD"

definition payloadA :: string where
  "payloadA = encodeEntry ''40000'' ''a'' oB"

definition payloadB :: string where
  "payloadB = encodeEntry ''100644'' ''xyz'' oF"

definition payloadP :: string where
  "payloadP = encodeEntry ''100644'' ''x'' oF"

definition payloadX :: string where
  "payloadX = encodeEntry ''100644'' ''f'' oM @ encodeEntry ''100644'' ''g'' ''short''"

definition payloadY :: string where
  "payloadY = encodeEntry ''100644'' ''f'' oF @ encodeEntry ''100644'' ''g'' ''short''"

definition exampleHeader :: "Oid \<Rightarrow> string" where
  "exampleHeader oid =
     (if oid = oF then String_Oid oid @ '' blob 10'' @ [LF]
      else if oid = oT then String_Oid oid @ '' tree 57'' @ [LF]
      else if oid = oD then String_Oid oid @ '' tree 0'' @ [LF]
      else if oid = oA then String_Oid oid @ '' tree 28'' @ [LF]
      else if oid = oB then String_Oid oid @ '' tree 31'' @ [LF]
      else if oid = oX then String_Oid oid @ '' tree 43'' @ [LF]
      else if oid = oY then String_Oid oid @ '' tree 43'' @ [LF]
      else if oid = oP then String_Oid oid @ '' tree 29'' @ [LF]
      else if oid = oG then ''garbage'' @ [LF]
      else if oid = oH then String_Oid oid @ '' blob'' @ [LF]
      else String_Oid oid @ '' missing'' @ [LF])"

definition examplePayload :: "Oid \<Rightarrow> string" where
  "examplePayload oid =
     (if oid = oF then ''0123456789'' @ [LF]
      else if oid = oT then payloadT @ [LF]
      else if oid = oD then [LF]
      else if oid = oA then payloadA @ [LF]
      else if oid = oB then payloadB @ [LF]
      else if oid = oX then payloadX @ [LF]
      else if oid = oY then payloadY @ [LF]
      else if oid = oP then payloadP @ [LF]
      else [])"

definition exampleRepo :: Repository where
  "exampleRepo =
     \<lparr>checkStdout = exampleHeader,
      batchStdout = (\<lambda>oid. exampleHeader oid @ examplePayload oid)\<rparr>"

text \<open>
  The records of \<open>oD\<close>, \<open>oT\<close>, \<open>oB\<close>, \<open>oP\<close> and \<open>oA\<close>; the cache with the size of \<open>oF\<close>,
  with the record of \<open>oD\<close> or \<open>oB\<close> as well, and once \<open>oT\<close> has been sized.
\<close>

definition sizeD :: TreeSize where
  "sizeD = \<lparr>MaxDepth = 1, MaxPathLength = 0, TreeCount = 1, MaxTreeEntries = 0,
     BlobCount = 0, BlobSize = 0, LinkCount = 0, SubmoduleCount = 0\<rparr>"

definition sizeT :: TreeSize where
  "sizeT = \<lparr>MaxDepth = 2, MaxPathLength = 1, TreeCount = 2, MaxTreeEntries = 2,
     BlobCount = 1, BlobSize = 10, LinkCount = 0, SubmoduleCount = 0\<rparr>"

definition sizeB :: TreeSize where
  "sizeB = \<lparr>MaxDepth = 2, MaxPathLength = 3, TreeCount = 1, MaxTreeEntries = 1,
     BlobCount = 1, BlobSize = 10, LinkCount = 0, SubmoduleCount = 0\<rparr>"

definition sizeP :: TreeSize where
  "sizeP = \<lparr>MaxDepth = 2, MaxPathLength = 1, TreeCount = 1, MaxTreeEntries = 1,
     BlobCount = 1, BlobSize = 10, LinkCount = 0, SubmoduleCount = 0\<rparr>"

definition sizeA :: TreeSize where
  "sizeA = \<lparr>MaxDepth = 3, MaxPathLength = 5, TreeCount = 2, MaxTreeEntries = 1,
     BlobCount = 1, BlobSize = 10, LinkCount = 0, SubmoduleCount = 0\<rparr>"

definition cacheF :: SizeCache where
  "cacheF = \<lparr>treeSizes = Map.empty, blobSizes = [oF \<mapsto> 10], todo = []\<rparr>"

definition cacheD :: SizeCache where
  "cacheD = \<lparr>treeSizes = [oD \<mapsto> sizeD], blobSizes = [oF \<mapsto> 10], todo = []\<rparr>"

definition cacheB :: SizeCache where
  "cacheB = \<lparr>treeSizes = [oB \<mapsto> sizeB], blobSizes = [oF \<mapsto> 10], todo = []\<rparr>"

definition cacheT :: SizeCache where
  "cacheT = \<lparr>treeSizes = [oD \<mapsto> sizeD, oT \<mapsto> sizeT], blobSizes = [oF \<mapsto> 10], todo = []\<rparr>"

definition entryF :: TreeEntry where
  "entryF = \<lparr>Name = ''f'', Oid = oF, Filemode = 33188\<rparr>"

definition entryD :: TreeEntry where
  "entryD = \<lparr>Name = ''d'', Oid = oD, Filemode = 16384\<rparr>"

text \<open>
  An id is absent from the store when both channels answer a request for it with the
  line \<^verbatim>\<open><id> missing\<close>.
\<close>

definition missingLine :: "Oid \<Rightarrow> string" where
  "missingLine oid = String_Oid oid @ '' missing'' @ [LF]"

definition absent :: "Repository \<Rightarrow> Oid \<Rightarrow> bool" where
  "absent repo oid \<longleftrightarrow>
     checkStdout repo oid = missingLine oid \<and> batchStdout repo oid = missingLine oid"

definition entryA :: TreeEntry where
  "entryA = \<lparr>Name = ''a'', Oid = oB, Filemode = 16384\<rparr>"

definition entryXyz :: TreeEntry where
  "entryXyz = \<lparr>Name = ''xyz'', Oid = oF, Filemode = 33188\<rparr>"

definition entryX :: TreeEntry where
  "entryX = \<lparr>Name = ''x'', Oid = oF, Filemode = 33188\<rparr>"

definition entryM :: TreeEntry where
  "entryM = \<lparr>Name = ''f'', Oid = oM, Filemode = 33188\<rparr>"

text \<open>
  The sum of a field over the records a cache holds for the subtree entries of a tree,
  as a natural number.
\<close>

definition subtreeTotal :: "(TreeSize \<Rightarrow> Count) \<Rightarrow> SizeCache \<Rightarrow> TreeEntry list \<Rightarrow> nat" where
  "subtreeTotal field cache entries =
     sum_list (map (\<lambda>entry. case treeSizes cache (Oid entry) of
                              Some s \<Rightarrow> unat (field s)
                            | None \<Rightarrow> 0)
                 (filter isTree entries))"

text \<open>
  The depth an entry brings to the tree that holds it: the depth of the record of a
  subtree, and 1 for a blob, a link or a submodule.
\<close>

definition entryDepth :: "SizeCache \<Rightarrow> TreeEntry \<Rightarrow> Count" where
  "entryDepth cache entry =
     (if isTree entry
      then (case treeSizes cache (Oid entry) of Some s \<Rightarrow> MaxDepth s | None \<Rightarrow> 0)
      else 1)"

text \<open>One size is below another when each of its eight counters is.\<close>

definition TreeSize_le :: "TreeSize \<Rightarrow> TreeSize \<Rightarrow> bool" where
  "TreeSize_le s s' \<longleftrightarrow>
     MaxDepth s \<le> MaxDepth s' \<and> MaxPathLength s \<le> MaxPathLength s' \<and>
     TreeCount s \<le> TreeCount s' \<and> MaxTreeEntries s \<le> MaxTreeEntries s' \<and>
     BlobCount s \<le> BlobCount s' \<and> BlobSize s \<le> BlobSize s' \<and>
     LinkCount s \<le> LinkCount s' \<and> SubmoduleCount s \<le> SubmoduleCount s'"

text \<open>
  The greatest number of entries an entry brings: that of the record of a subtree, and
  0 for a blob, a link or a submodule.
\<close>

definition entryTreeEntries :: "SizeCache \<Rightarrow> TreeEntry \<Rightarrow> Count" where
  "entryTreeEntries cache entry =
     (if isTree entry
      then (case treeSizes cache (Oid entry) of Some s \<Rightarrow> MaxTreeEntries s | None \<Rightarrow> 0)
      else 0)"

section \<open>Facts about the model\<close>

lemma unat_Count_less: "unat (a :: Count) < 18446744073709551616"
  using unsigned_less [of a, where ?'a = nat] by simp

lemma unat_addCapped:
  "unat (addCapped a b) = min (unat a + unat b) (2 ^ 64 - 1)"
proof (cases "unat a + unat b < 2 ^ 64")
  case True
  then show ?thesis
    by (simp add: addCapped_def Let_def word_less_nat_alt unat_plus_if')
next
  case False
  then have "unat (a + b) < unat a"
    using unat_Count_less [of b] by (simp add: unat_plus_if')
  then show ?thesis using False
    by (simp add: addCapped_def Let_def word_less_nat_alt MaxUint64_def)
qed

lemma addCapped_ge1: "n1 \<le> addCapped n1 n2"
  using unat_Count_less [of n1] by (simp add: word_le_nat_alt unat_addCapped)

lemma addCapped_ge2: "n2 \<le> addCapped n1 n2"
  using unat_Count_less [of n2] by (simp add: word_le_nat_alt unat_addCapped)

lemma NextEntry_shorter:
  "NextEntry data = Inr (Some (entry, data')) \<Longrightarrow> length data' < length data"
  by (auto simp: NextEntry_def split: if_splits option.splits sum.splits)

lemma SizeCache_BlobSize_frame:
  "SizeCache_BlobSize repo c oid = (c', r) \<Longrightarrow>
     treeSizes c' = treeSizes c \<and> todo c' = todo c \<and> blobSizes c \<subseteq>\<^sub>m blobSizes c'"
  by (auto simp: SizeCache_BlobSize_def map_le_def split: option.splits outcome.splits if_splits prod.splits)

lemma SizeCache_BlobSize_Ok:
  "SizeCache_BlobSize repo c oid = (c', Ok b) \<Longrightarrow> blobSizes c' oid = Some b"
  by (auto simp: SizeCache_BlobSize_def split: option.splits outcome.splits if_splits prod.splits)

lemma SizeCache_BlobSize_fail:
  "SizeCache_BlobSize repo c oid = (c', r) \<Longrightarrow> (\<forall>b. r \<noteq> Ok b) \<Longrightarrow> c' = c"
  by (auto simp: SizeCache_BlobSize_def split: option.splits outcome.splits if_splits prod.splits)

lemma queueTree_entry_frame:
  "queueTree_entry repo c ok sz e = (c', r) \<Longrightarrow>
     treeSizes c' = treeSizes c \<and> blobSizes c \<subseteq>\<^sub>m blobSizes c' \<and>
     todo c' = todo c @ (if isTree e \<and> treeSizes c (Oid e) = None then [Oid e] else [])"
  by (auto simp: queueTree_entry_def Push_def split: option.splits outcome.splits if_splits prod.splits
       dest: SizeCache_BlobSize_frame)

lemma queueTree_entry_Ok:
  "queueTree_entry repo c ok sz e = (c', Ok (ok', sz')) \<Longrightarrow>
     ok' = (ok \<and> \<not> (isTree e \<and> treeSizes c (Oid e) = None)) \<and>
     (ok' \<longrightarrow> sz' = mergeEntry c' sz e) \<and>
     (isBlob e \<longrightarrow> blobSizes c' (Oid e) \<noteq> None)"
  by (auto simp: queueTree_entry_def mergeEntry_def isBlob_def split: option.splits outcome.splits if_splits prod.splits
       dest: SizeCache_BlobSize_frame SizeCache_BlobSize_Ok)


lemma entriesOf_Nil:
  "NextEntry data = Inr None \<Longrightarrow> entriesOf data = []"
  by (subst entriesOf.simps) simp

lemma entriesOf_Err:
  "NextEntry data = Inl err \<Longrightarrow> entriesOf data = []"
  by (subst entriesOf.simps) simp

lemma entriesOf_Cons:
  "NextEntry data = Inr (Some (e, data')) \<Longrightarrow> entriesOf data = e # entriesOf data'"
  by (subst entriesOf.simps) simp

lemma unknownSubtrees_cong:
  "treeSizes c1 = treeSizes c \<Longrightarrow> unknownSubtrees c1 data = unknownSubtrees c data"
  by (simp add: unknownSubtrees_def)

lemma mergeEntry_cong:
  assumes "treeSizes c1 = treeSizes c'" "blobSizes c1 \<subseteq>\<^sub>m blobSizes c'"
    and "isBlob e \<longrightarrow> blobSizes c1 (Oid e) \<noteq> None"
  shows "mergeEntry c1 sz e = mergeEntry c' sz e"
proof (cases "isBlob e")
  case True
  then obtain b where b: "blobSizes c1 (Oid e) = Some b" using assms(3) by auto
  then have "blobSizes c' (Oid e) = Some b"
    using assms(2) by (auto simp: map_le_def dom_def)
  with b True show ?thesis by (simp add: mergeEntry_def isBlob_def assms(1))
next
  case False
  then show ?thesis by (auto simp: mergeEntry_def isBlob_def assms(1))
qed

lemma queueTree_loop_Ok:
  "queueTree_loop repo c ok n sz data = (c', Ok (ok', n', sz')) \<Longrightarrow>
     treeSizes c' = treeSizes c \<and> blobSizes c \<subseteq>\<^sub>m blobSizes c' \<and>
     todo c' = todo c @ unknownSubtrees c data \<and>
     ok' = (ok \<and> unknownSubtrees c data = []) \<and>
     n' = n + of_nat (length (entriesOf data)) \<and>
     (ok' \<longrightarrow> sz' = foldl (mergeEntry c') sz (entriesOf data)) \<and>
     (\<forall>e \<in> set (entriesOf data). isBlob e \<longrightarrow> blobSizes c' (Oid e) \<noteq> None)"
proof (induction repo c ok n sz data arbitrary: c' ok' n' sz' rule: queueTree_loop.induct)
  case (1 repo c ok n sz data)
  note run = "1.prems"
  show ?case
  proof (cases "NextEntry data")
    case (Inl err)
    with run show ?thesis by (subst (asm) queueTree_loop.simps) simp
  next
    case (Inr x)
    show ?thesis
    proof (cases x)
      case None
      with Inr have ne: "NextEntry data = Inr None" by simp
      with run have "c' = c" "ok' = ok" "n' = n" "sz' = sz"
        by (subst (asm) queueTree_loop.simps, simp)+
      then show ?thesis
        by (simp add: entriesOf_Nil [OF ne] unknownSubtrees_def)
    next
      case (Some p)
      obtain e data' where p: "p = (e, data')" by (cases p)
      with Some Inr have ne: "NextEntry data = Inr (Some (e, data'))" by simp
      obtain c1 r1 where ent: "queueTree_entry repo c ok sz e = (c1, r1)"
        by (cases "queueTree_entry repo c ok sz e")
      from run ne ent obtain ok1 sz1 where r1: "r1 = Ok (ok1, sz1)"
        and rec: "queueTree_loop repo c1 ok1 (n + 1) sz1 data' = (c', Ok (ok', n', sz'))"
        by (subst (asm) queueTree_loop.simps) (auto split: outcome.splits prod.splits)
      note fr = queueTree_entry_frame [OF ent]
      note eo = queueTree_entry_Ok [OF ent [unfolded r1]]
      note ih = "1.IH" [OF Inr Some p [symmetric] ent [symmetric] r1 refl rec]
      have us: "unknownSubtrees c data =
          (if isTree e \<and> treeSizes c (Oid e) = None then [Oid e] else []) @ unknownSubtrees c1 data'"
        using fr by (simp add: unknownSubtrees_def entriesOf_Cons [OF ne])
      have m: "mergeEntry c1 sz e = mergeEntry c' sz e"
        using ih eo by (intro mergeEntry_cong) auto
      have b: "isBlob e \<longrightarrow> blobSizes c' (Oid e) \<noteq> None"
        using eo ih by (auto simp: map_le_def dom_def)
      have t: "treeSizes c' = treeSizes c" using ih fr by simp
      have bl: "blobSizes c \<subseteq>\<^sub>m blobSizes c'" using ih fr by (blast intro: map_le_trans)
      have td: "todo c' = todo c @ unknownSubtrees c data" using ih fr us by simp
      have okk: "ok' = (ok \<and> unknownSubtrees c data = [])" using ih eo us by auto
      have nn: "n' = n + of_nat (length (entriesOf data))"
        using ih by (simp add: entriesOf_Cons [OF ne])
      have ss: "ok' \<longrightarrow> sz' = foldl (mergeEntry c') sz (entriesOf data)"
        using ih eo m by (auto simp: entriesOf_Cons [OF ne])
      have bb: "\<forall>e \<in> set (entriesOf data). isBlob e \<longrightarrow> blobSizes c' (Oid e) \<noteq> None"
        using ih b by (simp add: entriesOf_Cons [OF ne])
      from t bl td okk nn ss bb show ?thesis by blast
    qed
  qed
qed


lemma ParseUint_loop_not_NotYetKnown: "ParseUint_loop s0 base bits s n \<noteq> Inl NotYetKnown"
  by (induction s arbitrary: n) (auto split: option.splits)

lemma ParseUint_not_NotYetKnown: "ParseUint s base bits \<noteq> Inl NotYetKnown"
  by (simp add: ParseUint_def ParseUint_loop_not_NotYetKnown)

lemma ReadHeader_not_NotYetKnown: "ReadHeader repo oid \<noteq> Err NotYetKnown"
  using ParseUint_not_NotYetKnown
  by (auto simp: ReadHeader_def ReadString_def split: sum.splits option.splits prod.splits if_splits)

lemma ReadTree_not_NotYetKnown: "ReadTree repo oid \<noteq> Err NotYetKnown"
  using ParseUint_not_NotYetKnown
  by (auto simp: ReadTree_def ReadString_def split: sum.splits option.splits prod.splits if_splits)

lemma NextEntry_not_NotYetKnown: "NextEntry data \<noteq> Inl NotYetKnown"
  using ParseUint_not_NotYetKnown
  by (auto simp: NextEntry_def split: sum.splits option.splits if_splits)

lemma SizeCache_BlobSize_not_NotYetKnown: "SizeCache_BlobSize repo c oid \<noteq> (c', Err NotYetKnown)"
  using ReadHeader_not_NotYetKnown [of repo oid]
  by (auto simp: SizeCache_BlobSize_def split: option.splits outcome.splits prod.splits if_splits)

lemma queueTree_entry_not_NotYetKnown:
  "queueTree_entry repo c ok sz e \<noteq> (c', Err NotYetKnown)"
  using SizeCache_BlobSize_not_NotYetKnown [of repo c "Oid e"]
  by (auto simp: queueTree_entry_def split: option.splits outcome.splits prod.splits if_splits)

lemma queueTree_loop_not_NotYetKnown:
  "queueTree_loop repo c ok n sz data \<noteq> (c', Err NotYetKnown)"
proof (induction repo c ok n sz data rule: queueTree_loop.induct)
  case (1 repo c ok n sz data)
  show ?case
    using "1.IH" NextEntry_not_NotYetKnown [of data] queueTree_entry_not_NotYetKnown [of repo c ok sz]
    by (subst queueTree_loop.simps) (auto split: sum.splits option.splits outcome.splits prod.splits)
qed

lemma queueTree_Ok:
  assumes "queueTree repo c oid = (c', Ok s)"
  shows "\<exists>data. ReadTree repo oid = Ok data \<and>
     treeSizes c' = treeSizes c \<and> blobSizes c \<subseteq>\<^sub>m blobSizes c' \<and> todo c' = todo c \<and>
     unknownSubtrees c data = [] \<and>
     s = finalize (of_nat (length (entriesOf data)))
           (foldl (mergeEntry c') (TreeSize_zero\<lparr>TreeCount := 1\<rparr>) (entriesOf data)) \<and>
     (\<forall>e \<in> set (entriesOf data). isBlob e \<longrightarrow> blobSizes c' (Oid e) \<noteq> None)"
proof -
  from assms obtain data where rt: "ReadTree repo oid = Ok data"
    by (cases "ReadTree repo oid") (auto simp: queueTree_def)
  from assms rt obtain n sz where
    lp: "queueTree_loop repo c True 0 (TreeSize_zero\<lparr>TreeCount := 1\<rparr>) data = (c', Ok (True, n, sz))"
    and s: "s = finalize n sz"
    by (auto simp: queueTree_def finalize_def split: prod.splits outcome.splits if_splits)
  from queueTree_loop_Ok [OF lp] s rt show ?thesis by auto
qed

lemma queueTree_NotYetKnown:
  assumes "queueTree repo c oid = (c', Err NotYetKnown)"
  shows "\<exists>data. ReadTree repo oid = Ok data \<and>
     treeSizes c' = treeSizes c \<and> blobSizes c \<subseteq>\<^sub>m blobSizes c' \<and>
     todo c' = todo c @ unknownSubtrees c data \<and> unknownSubtrees c data \<noteq> []"
proof -
  from assms ReadTree_not_NotYetKnown [of repo oid] obtain data where rt: "ReadTree repo oid = Ok data"
    by (cases "ReadTree repo oid") (auto simp: queueTree_def)
  from assms rt queueTree_loop_not_NotYetKnown [of repo c True 0 _ data c'] obtain n sz where
    lp: "queueTree_loop repo c True 0 (TreeSize_zero\<lparr>TreeCount := 1\<rparr>) data = (c', Ok (False, n, sz))"
    by (auto simp: queueTree_def split: prod.splits outcome.splits if_splits)
  from queueTree_loop_Ok [OF lp] rt show ?thesis by auto
qed

section \<open>The small store, evaluated\<close>

lemmas example_defs = exampleRepo_def exampleHeader_def examplePayload_def
  oT_def oF_def oD_def oA_def oB_def oX_def oY_def oM_def oG_def oH_def oP_def
  payloadT_def payloadA_def payloadB_def payloadX_def payloadY_def payloadP_def
  encodeEntry_def LF_def NUL_def SP_def

lemmas eval_defs = ReadString_def String_Oid_def hexDigit_def index_def ParseUint_def
  digitVal_def

section \<open>Malformed response lines\<close>

text \<open>
  C7. The claim: on any malformed response line, also one with fewer words than the
  format has, \<^verbatim>\<open>ReadHeader\<close> and \<^verbatim>\<open>ReadTree\<close> return an error and never crash. The code
  indexes \<^verbatim>\<open>words[1]\<close> and \<^verbatim>\<open>words[2]\<close> without looking at the number of words: a
  line of one word, and a line of two words whose second is not \<^verbatim>\<open>missing\<close>, end in the
  run-time panic for an index out of range, on the header channel and on the payload
  channel alike.
\<close>

theorem short_response_line_panics:
  "ReadHeader exampleRepo oG = Panic IndexOutOfRange \<and>
   ReadHeader exampleRepo oH = Panic IndexOutOfRange \<and>
   ReadTree exampleRepo oG = Panic IndexOutOfRange"
  by (simp add: ReadHeader_def ReadTree_def example_defs eval_defs)

section \<open>The fixpoint loop\<close>

lemma fill_Ok_memoized:
  "fill repo c = Some y \<Longrightarrow> snd y = Ok () \<Longrightarrow>
     set (todo c) \<subseteq> dom (treeSizes (fst y)) \<and> dom (treeSizes c) \<subseteq> dom (treeSizes (fst y)) \<and>
     todo (fst y) = []"
proof (induction repo c y rule: fill.raw_induct [rotated 1, consumes 1, case_names step])
  case (step fill' repo c y)
  note ih = step.IH and run = step.hyps and ok = step.prems
  show ?case
  proof (cases "todo c = []")
    case True
    with run have "y = (c, Ok ())" by (simp add: Length_def)
    with True show ?thesis by auto
  next
    case False
    define x where "x = last (todo c)"
    have td: "set (todo c) = insert x (set (butlast (todo c)))"
      using False unfolding x_def
      by (metis append_butlast_last_id list.simps(15) rotate1.simps(2) set_rotate1)
    show ?thesis
    proof (cases "treeSizes c x")
      case (Some s)
      with run False have "fill' repo (c\<lparr>todo := butlast (todo c)\<rparr>) = Some y"
        by (simp add: Length_def Peek_def Drop_def x_def)
      from ih [OF this ok] Some td show ?thesis by auto
    next
      case None
      obtain c1 r1 where q: "queueTree repo c x = (c1, r1)" by (cases "queueTree repo c x")
      show ?thesis
      proof (cases r1)
        case (Ok s)
        from queueTree_Ok [OF q [unfolded Ok]]
        have fr: "treeSizes c1 = treeSizes c" "todo c1 = todo c" by auto
        from run False None q Ok
        have "fill' repo (c1\<lparr>treeSizes := (treeSizes c1)(x \<mapsto> s), todo := butlast (todo c1)\<rparr>) = Some y"
          by (simp add: Length_def Peek_def Drop_def x_def)
        note h = ih [OF this ok]
        from h have a: "set (butlast (todo c1)) \<subseteq> dom (treeSizes (fst y))"
          and e: "todo (fst y) = []" by simp_all
        from h have b: "\<And>a. a = x \<or> a \<in> dom (treeSizes c1) \<Longrightarrow> a \<in> dom (treeSizes (fst y))"
          by (fastforce simp: dom_def subset_iff)
        from b have "x \<in> dom (treeSizes (fst y))" "dom (treeSizes c1) \<subseteq> dom (treeSizes (fst y))"
          by blast+
        with a e fr td show ?thesis by auto
      next
        case (Err e)
        show ?thesis
        proof (cases "e = NotYetKnown")
          case True
          from queueTree_NotYetKnown [OF q [unfolded Err True]]
          have fr: "treeSizes c1 = treeSizes c" "set (todo c) \<subseteq> set (todo c1)" by auto
          from run False None q Err True have "fill' repo c1 = Some y"
            by (simp add: Length_def Peek_def x_def)
          from ih [OF this ok] fr show ?thesis by auto
        next
          case False
          with run \<open>todo c \<noteq> []\<close> None q Err have "y = (c1, Err e)"
            by (simp add: Length_def Peek_def x_def)
          with ok show ?thesis by simp
        qed
      next
        case (Panic p)
        with run False None q have "y = (c1, Panic p)"
          by (simp add: Length_def Peek_def x_def)
        with ok show ?thesis by simp
      qed
    qed
  qed
qed

lemma IndexByte_append:
  "c \<notin> set xs \<Longrightarrow> IndexByte (xs @ c # ys) c = Some (length xs)"
proof -
  assume "c \<notin> set xs"
  then have "takeWhile (\<lambda>x. x \<noteq> c) (xs @ c # ys) = xs"
    by (induction xs) auto
  then show ?thesis by (simp add: IndexByte_def)
qed

lemma ParseUint_loop_digits:
  "ParseUint_loop s0 base bits s n = Inr m \<Longrightarrow> \<forall>c \<in> set s. digitVal c \<noteq> None"
  by (induction s arbitrary: n) (auto split: option.splits if_splits)

lemma ParseUint_no_SP: "ParseUint s base bits = Inr m \<Longrightarrow> SP \<notin> set s"
proof
  assume p: "ParseUint s base bits = Inr m" and "SP \<in> set s"
  then have "digitVal SP \<noteq> None"
    using ParseUint_loop_digits [of s base bits s 0 m]
    by (auto simp: ParseUint_def split: if_splits)
  then show False by (simp add: digitVal_def SP_def)
qed

lemma NextEntry_encodeEntry:
  assumes "ParseUint mode 8 32 = Inr m" and "NUL \<notin> set name" and "length oid = 20"
  shows "NextEntry (encodeEntry mode name oid @ rest) =
           Inr (Some (\<lparr>Name = name, Oid = oid, Filemode = of_nat m\<rparr>, rest))"
proof -
  have sp: "IndexByte (encodeEntry mode name oid @ rest) SP = Some (length mode)"
    using IndexByte_append [OF ParseUint_no_SP [OF assms(1)]] by (simp add: encodeEntry_def)
  have nul: "IndexByte (name @ NUL # oid @ rest) NUL = Some (length name)"
    using IndexByte_append [OF assms(2)] by simp
  show ?thesis
    unfolding NextEntry_def
    by (simp add: sp) (simp add: encodeEntry_def assms nul)
qed

lemma NextEntry_truncated:
  assumes "ParseUint mode 8 32 = Inr m" and "NUL \<notin> set name" and "length tail < 20"
  shows "NextEntry (encodeEntry mode name tail) = Inl TreeEntryEndsUnexpectedly"
proof -
  have sp: "IndexByte (encodeEntry mode name tail) SP = Some (length mode)"
    using IndexByte_append [OF ParseUint_no_SP [OF assms(1)]] by (simp add: encodeEntry_def)
  have nul: "IndexByte (name @ NUL # tail) NUL = Some (length name)"
    using IndexByte_append [OF assms(2)] by simp
  show ?thesis
    unfolding NextEntry_def
    by (simp add: sp) (simp add: encodeEntry_def assms nul)
qed

section \<open>Termination of the fixpoint loop\<close>

lemma fill_top_cases:
  assumes td: "todo c = rest @ [x]"
  shows "(\<exists>r. fill repo c = Some r) \<or>
     (\<exists>c2. fill repo c = fill repo c2 \<and> todo c2 = rest \<and> x \<in> dom (treeSizes c2) \<and>
        treeSizes c \<subseteq>\<^sub>m treeSizes c2) \<or>
     (\<exists>c1 data. treeSizes c x = None \<and> ReadTree repo x = Ok data \<and>
        unknownSubtrees c data \<noteq> [] \<and> fill repo c = fill repo c1 \<and>
        treeSizes c1 = treeSizes c \<and> todo c1 = todo c @ unknownSubtrees c data)"
proof (cases "treeSizes c x")
  case (Some s)
  have "fill repo c = fill repo (c\<lparr>todo := rest\<rparr>)"
    by (subst fill.simps) (simp add: td Length_def Peek_def Drop_def Some)
  moreover have "x \<in> dom (treeSizes (c\<lparr>todo := rest\<rparr>))" using Some by auto
  ultimately show ?thesis by (intro disjI2 disjI1 exI [of _ "c\<lparr>todo := rest\<rparr>"]) simp
next
  case None
  obtain c1 r1 where q: "queueTree repo c x = (c1, r1)" by (cases "queueTree repo c x")
  show ?thesis
  proof (cases r1)
    case (Ok s)
    from queueTree_Ok [OF q [unfolded Ok]]
    have fr: "treeSizes c1 = treeSizes c" "todo c1 = todo c" by auto
    let ?c2 = "c1\<lparr>treeSizes := (treeSizes c1)(x \<mapsto> s), todo := Drop (todo c1)\<rparr>"
    have "fill repo c = fill repo ?c2"
      by (subst fill.simps) (simp add: td Length_def Peek_def None q Ok)
    moreover have "todo ?c2 = rest" using fr td by (simp add: Drop_def)
    moreover have "x \<in> dom (treeSizes ?c2)" by simp
    moreover have "treeSizes c \<subseteq>\<^sub>m treeSizes ?c2"
      using fr None by (auto simp: map_le_def)
    ultimately show ?thesis by (intro disjI2 disjI1 exI [of _ ?c2]) blast
  next
    case (Err e)
    show ?thesis
    proof (cases "e = NotYetKnown")
      case True
      from queueTree_NotYetKnown [OF q [unfolded Err True]] obtain data where
        d: "ReadTree repo x = Ok data" "treeSizes c1 = treeSizes c"
           "todo c1 = todo c @ unknownSubtrees c data" "unknownSubtrees c data \<noteq> []"
        by auto
      have "fill repo c = fill repo c1"
        by (subst fill.simps) (simp add: td Length_def Peek_def None q Err True)
      with d None show ?thesis by blast
    next
      case False
      have "fill repo c = Some (c1, Err e)"
        by (subst fill.simps) (simp add: td Length_def Peek_def None q Err False)
      then show ?thesis by simp
    qed
  next
    case (Panic p)
    have "fill repo c = Some (c1, Panic p)"
      by (subst fill.simps) (simp add: td Length_def Peek_def None q Panic)
    then show ?thesis by simp
  qed
qed

lemma sized_list:
  assumes "\<forall>y \<in> set ys. sized repo y"
  shows "todo c = rest @ ys \<Longrightarrow>
        (\<exists>r. fill repo c = Some r) \<or>
        (\<exists>c2. fill repo c = fill repo c2 \<and> todo c2 = rest \<and> set ys \<subseteq> dom (treeSizes c2) \<and>
           treeSizes c \<subseteq>\<^sub>m treeSizes c2)"
  using assms
proof (induction ys arbitrary: c rule: rev_induct)
  case Nil
  then show ?case by (intro disjI2 exI [of _ c]) simp
next
  case (snoc y ys)
  from snoc.prems have sy: "sized repo y" and sys: "\<forall>y \<in> set ys. sized repo y" by auto
  from snoc.prems have td: "todo c = (rest @ ys) @ [y]" by simp
  from sy [unfolded sized_def, rule_format, OF td]
  show ?case
  proof
    assume "\<exists>r. fill repo c = Some r"
    then show ?thesis by blast
  next
    assume "\<exists>c2. fill repo c = fill repo c2 \<and> todo c2 = rest @ ys \<and> y \<in> dom (treeSizes c2) \<and>
           treeSizes c \<subseteq>\<^sub>m treeSizes c2"
    then obtain c1 where c1: "fill repo c = fill repo c1" "todo c1 = rest @ ys"
      "y \<in> dom (treeSizes c1)" "treeSizes c \<subseteq>\<^sub>m treeSizes c1" by blast
    from snoc.IH [OF c1(2) sys]
    show ?thesis
    proof
      assume "\<exists>r. fill repo c1 = Some r"
      with c1(1) show ?thesis by simp
    next
      assume "\<exists>c2. fill repo c1 = fill repo c2 \<and> todo c2 = rest \<and> set ys \<subseteq> dom (treeSizes c2) \<and>
           treeSizes c1 \<subseteq>\<^sub>m treeSizes c2"
      then obtain c2 where c2: "fill repo c1 = fill repo c2" "todo c2 = rest"
        "set ys \<subseteq> dom (treeSizes c2)" "treeSizes c1 \<subseteq>\<^sub>m treeSizes c2" by blast
      have "y \<in> dom (treeSizes c2)" using c1(3) c2(4) by (auto simp: map_le_def dom_def)
      moreover have "treeSizes c \<subseteq>\<^sub>m treeSizes c2" using c1(4) c2(4) by (rule map_le_trans)
      ultimately show ?thesis using c1(1) c2 by (intro disjI2 exI [of _ c2]) simp
    qed
  qed
qed

lemma unknownSubtrees_subtrees:
  "ReadTree repo x = Ok data \<Longrightarrow> y \<in> set (unknownSubtrees c data) \<Longrightarrow> (y, x) \<in> subtrees repo"
  by (auto simp: unknownSubtrees_def subtrees_def)

lemma unknownSubtrees_resolved:
  assumes "treeSizes c \<subseteq>\<^sub>m treeSizes c2" "set (unknownSubtrees c data) \<subseteq> dom (treeSizes c2)"
  shows "unknownSubtrees c2 data = []"
proof -
  have "treeSizes c2 (Oid e) \<noteq> None" if "e \<in> set (entriesOf data)" "isTree e" for e
  proof (cases "treeSizes c (Oid e)")
    case None
    with that have "Oid e \<in> set (unknownSubtrees c data)" by (auto simp: unknownSubtrees_def)
    with assms(2) show ?thesis by auto
  next
    case (Some s)
    with assms(1) show ?thesis by (auto simp: map_le_def dom_def)
  qed
  then show ?thesis by (auto simp: unknownSubtrees_def filter_empty_conv)
qed

lemma wf_sized:
  assumes "wf (subtrees repo)"
  shows "sized repo x"
  using assms
proof (induction x rule: wf_induct_rule)
  case (less x)
  show ?case unfolding sized_def
  proof (intro allI impI)
    fix c :: SizeCache and rest
    assume td: "todo c = rest @ [x]"
    from fill_top_cases [OF td, of repo]
    consider (stop) "\<exists>r. fill repo c = Some r"
      | (fin) "\<exists>c2. fill repo c = fill repo c2 \<and> todo c2 = rest \<and> x \<in> dom (treeSizes c2) \<and>
          treeSizes c \<subseteq>\<^sub>m treeSizes c2"
      | (push) c1 data where "treeSizes c x = None" "ReadTree repo x = Ok data"
          "unknownSubtrees c data \<noteq> []" "fill repo c = fill repo c1"
          "treeSizes c1 = treeSizes c" "todo c1 = todo c @ unknownSubtrees c data"
      by blast
    then show "(\<exists>r. fill repo c = Some r) \<or>
        (\<exists>c2. fill repo c = fill repo c2 \<and> todo c2 = rest \<and> x \<in> dom (treeSizes c2) \<and>
           treeSizes c \<subseteq>\<^sub>m treeSizes c2)"
    proof cases
      case stop
      then show ?thesis by blast
    next
      case fin
      then show ?thesis by blast
    next
      case push
      have "\<forall>y \<in> set (unknownSubtrees c data). sized repo y"
        using less.IH unknownSubtrees_subtrees [OF push(2)] by blast
      from sized_list [OF this, of c1 "rest @ [x]"] push(6) td
      consider (stop2) "\<exists>r. fill repo c1 = Some r"
        | (again) c2 where "fill repo c1 = fill repo c2" "todo c2 = rest @ [x]"
            "set (unknownSubtrees c data) \<subseteq> dom (treeSizes c2)" "treeSizes c1 \<subseteq>\<^sub>m treeSizes c2"
        by auto
      then show ?thesis
      proof cases
        case stop2
        with push(4) show ?thesis by simp
      next
        case again
        have le: "treeSizes c \<subseteq>\<^sub>m treeSizes c2" using again(4) push(5) by simp
        have res: "unknownSubtrees c2 data = []"
          using unknownSubtrees_resolved [OF le again(3)] .
        from fill_top_cases [OF again(2), of repo]
        show ?thesis
        proof (elim disjE exE conjE)
          fix r assume "fill repo c2 = Some r"
          with push(4) again(1) show ?thesis by simp
        next
          fix c3 assume "fill repo c2 = fill repo c3" "todo c3 = rest" "x \<in> dom (treeSizes c3)"
            "treeSizes c2 \<subseteq>\<^sub>m treeSizes c3"
          with push(4) again(1) le show ?thesis
            by (intro disjI2 exI [of _ c3]) (auto intro: map_le_trans)
        next
          fix c3 data' assume "ReadTree repo x = Ok data'" "unknownSubtrees c2 data' \<noteq> []"
          with push(2) res show ?thesis by simp
        qed
      qed
    qed
  qed
qed

lemma fill_terminates_wf:
  assumes "wf (subtrees repo)"
  shows "\<exists>r. fill repo c = Some r"
proof -
  have "\<forall>y \<in> set (todo c). sized repo y" using wf_sized [OF assms] by simp
  from sized_list [OF this, of c "[]", simplified]
  show ?thesis
  proof (elim disjE exE conjE)
    fix r assume "fill repo c = Some r" then show ?thesis by blast
  next
    fix c2 assume a: "fill repo c = fill repo c2" "todo c2 = []"
    have "fill repo c2 = Some (c2, Ok ())" by (subst fill.simps) (simp add: a Length_def)
    with a show ?thesis by simp
  qed
qed

section \<open>What the operations leave in the cache\<close>

lemma SizeCache_BlobSize_tables:
  "SizeCache_BlobSize repo c oid = (c', r) \<Longrightarrow> tablesFromStore repo c \<Longrightarrow> tablesFromStore repo c'"
  by (auto simp: SizeCache_BlobSize_def tablesFromStore_def
      split: option.splits outcome.splits if_splits prod.splits)

lemma queueTree_entry_tables:
  "queueTree_entry repo c ok sz e = (c', r) \<Longrightarrow> tablesFromStore repo c \<Longrightarrow> tablesFromStore repo c'"
  by (auto simp: queueTree_entry_def split: option.splits outcome.splits if_splits prod.splits
      dest: SizeCache_BlobSize_tables)
     (auto simp: tablesFromStore_def)

lemma queueTree_loop_frame:
  "queueTree_loop repo c ok n sz data = (c', r) \<Longrightarrow>
     treeSizes c' = treeSizes c \<and> blobSizes c \<subseteq>\<^sub>m blobSizes c' \<and>
     (\<exists>ps. todo c' = todo c @ ps \<and> (\<forall>y \<in> set ps. treeSizes c y = None)) \<and>
     (tablesFromStore repo c \<longrightarrow> tablesFromStore repo c')"
proof (induction repo c ok n sz data arbitrary: c' r rule: queueTree_loop.induct)
  case (1 repo c ok n sz data)
  note run = "1.prems"
  show ?case
  proof (cases "NextEntry data")
    case (Inl err)
    with run have "c' = c" by (subst (asm) queueTree_loop.simps) simp
    then show ?thesis by simp
  next
    case (Inr x)
    show ?thesis
    proof (cases x)
      case None
      with Inr run have "c' = c" by (subst (asm) queueTree_loop.simps) simp
      then show ?thesis by simp
    next
      case (Some p)
      obtain e data' where p: "p = (e, data')" by (cases p)
      with Some Inr have ne: "NextEntry data = Inr (Some (e, data'))" by simp
      obtain c1 r1 where ent: "queueTree_entry repo c ok sz e = (c1, r1)"
        by (cases "queueTree_entry repo c ok sz e")
      from queueTree_entry_frame [OF ent]
      have t1: "treeSizes c1 = treeSizes c" and b1: "blobSizes c \<subseteq>\<^sub>m blobSizes c1" by simp_all
      define ps1 where "ps1 = (if isTree e \<and> treeSizes c (Oid e) = None then [Oid e] else [])"
      have p1: "todo c1 = todo c @ ps1" "\<forall>y \<in> set ps1. treeSizes c y = None"
        using queueTree_entry_frame [OF ent] by (simp_all add: ps1_def)
      note tb = queueTree_entry_tables [OF ent]
      have stop: ?thesis if "c' = c1"
        unfolding that using t1 b1 p1 tb by blast
      show ?thesis
      proof (cases r1)
        case (Ok q)
        obtain ok1 sz1 where q: "q = (ok1, sz1)" by (cases q)
        from run ne ent Ok q
        have rec: "queueTree_loop repo c1 ok1 (n + 1) sz1 data' = (c', r)"
          by (subst (asm) queueTree_loop.simps) simp
        note ih = "1.IH" [OF Inr Some p [symmetric] ent [symmetric] Ok q [symmetric] rec]
        from ih have t2: "treeSizes c' = treeSizes c1" and b2: "blobSizes c1 \<subseteq>\<^sub>m blobSizes c'"
          and tb2: "tablesFromStore repo c1 \<longrightarrow> tablesFromStore repo c'" by blast+
        from ih obtain ps2 where p2: "todo c' = todo c1 @ ps2" "\<forall>y \<in> set ps2. treeSizes c1 y = None"
          by blast
        have "todo c' = todo c @ (ps1 @ ps2)" using p1 p2 by simp
        moreover have "\<forall>y \<in> set (ps1 @ ps2). treeSizes c y = None" using p1 p2 t1 by auto
        ultimately have e: "\<exists>ps. todo c' = todo c @ ps \<and> (\<forall>y \<in> set ps. treeSizes c y = None)"
          by blast
        have t: "treeSizes c' = treeSizes c" using t1 t2 by simp
        have b: "blobSizes c \<subseteq>\<^sub>m blobSizes c'" using b1 b2 by (rule map_le_trans)
        have tt: "tablesFromStore repo c \<longrightarrow> tablesFromStore repo c'" using tb tb2 by blast
        from t b e tt show ?thesis by blast
      next
        case (Err err)
        with run ne ent have "c' = c1" by (subst (asm) queueTree_loop.simps) simp
        then show ?thesis by (rule stop)
      next
        case (Panic pn)
        with run ne ent have "c' = c1" by (subst (asm) queueTree_loop.simps) simp
        then show ?thesis by (rule stop)
      qed
    qed
  qed
qed

lemma queueTree_frame:
  assumes "queueTree repo c oid = (c', r)"
  shows "treeSizes c' = treeSizes c \<and> blobSizes c \<subseteq>\<^sub>m blobSizes c' \<and>
     (\<exists>ps. todo c' = todo c @ ps \<and> (\<forall>y \<in> set ps. treeSizes c y = None)) \<and>
     (tablesFromStore repo c \<longrightarrow> tablesFromStore repo c')"
proof (cases "ReadTree repo oid")
  case (Ok data)
  obtain c1 r1 where lp:
    "queueTree_loop repo c True 0 (TreeSize_zero\<lparr>TreeCount := 1\<rparr>) data = (c1, r1)"
    by (cases "queueTree_loop repo c True 0 (TreeSize_zero\<lparr>TreeCount := 1\<rparr>) data")
  with assms Ok have "c' = c1"
    by (auto simp: queueTree_def split: outcome.splits prod.splits if_splits)
  with queueTree_loop_frame [OF lp] show ?thesis by simp
next
  case (Err e)
  with assms have "c' = c" by (simp add: queueTree_def)
  then show ?thesis by simp
next
  case (Panic p)
  with assms have "c' = c" by (simp add: queueTree_def)
  then show ?thesis by simp
qed

lemma tablesFromStore_memoize:
  assumes "tablesFromStore repo c" "ReadTree repo x = Ok data"
  shows "tablesFromStore repo (c\<lparr>treeSizes := (treeSizes c)(x \<mapsto> s), todo := t\<rparr>)"
  using assms by (auto simp: tablesFromStore_def)

lemma tablesFromStore_todo:
  "tablesFromStore repo (c\<lparr>todo := t\<rparr>) = tablesFromStore repo c"
  by (simp add: tablesFromStore_def)

lemma fill_tables:
  "fill repo c = Some y \<Longrightarrow>
     (tablesFromStore repo c \<longrightarrow> tablesFromStore repo (fst y)) \<and>
     treeSizes c \<subseteq>\<^sub>m treeSizes (fst y) \<and> blobSizes c \<subseteq>\<^sub>m blobSizes (fst y)"
proof (induction repo c y rule: fill.raw_induct [rotated 1, consumes 1, case_names step])
  case (step fill' repo c y)
  note ih = step.IH and run = step.hyps
  show ?case
  proof (cases "todo c = []")
    case True
    with run have "y = (c, Ok ())" by (simp add: Length_def)
    then show ?thesis by simp
  next
    case False
    define x where "x = last (todo c)"
    show ?thesis
    proof (cases "treeSizes c x")
      case (Some s)
      with run False have "fill' repo (c\<lparr>todo := butlast (todo c)\<rparr>) = Some y"
        by (simp add: Length_def Peek_def Drop_def x_def)
      from ih [OF this] show ?thesis by (simp add: tablesFromStore_todo)
    next
      case None
      obtain c1 r1 where q: "queueTree repo c x = (c1, r1)" by (cases "queueTree repo c x")
      note fr = queueTree_frame [OF q]
      show ?thesis
      proof (cases r1)
        case (Ok s)
        from queueTree_Ok [OF q [unfolded Ok]] obtain data where rt: "ReadTree repo x = Ok data"
          by auto
        let ?c2 = "c1\<lparr>treeSizes := (treeSizes c1)(x \<mapsto> s), todo := butlast (todo c1)\<rparr>"
        from run False None q Ok have "fill' repo ?c2 = Some y"
          by (simp add: Length_def Peek_def Drop_def x_def)
        note h = ih [OF this]
        have t2: "tablesFromStore repo c \<longrightarrow> tablesFromStore repo ?c2"
          using fr tablesFromStore_memoize [OF _ rt] by blast
        have "treeSizes c \<subseteq>\<^sub>m treeSizes ?c2" using fr None by (auto simp: map_le_def)
        then have a: "treeSizes c \<subseteq>\<^sub>m treeSizes (fst y)" using h by (blast intro: map_le_trans)
        have "blobSizes c \<subseteq>\<^sub>m blobSizes ?c2" using fr by simp
        then have b: "blobSizes c \<subseteq>\<^sub>m blobSizes (fst y)" using h by (blast intro: map_le_trans)
        from a b t2 h show ?thesis by blast
      next
        case (Err e)
        show ?thesis
        proof (cases "e = NotYetKnown")
          case True
          from run False None q Err True have "fill' repo c1 = Some y"
            by (simp add: Length_def Peek_def x_def)
          note h = ih [OF this]
          have a: "treeSizes c \<subseteq>\<^sub>m treeSizes (fst y)" using h fr by simp
          have b: "blobSizes c \<subseteq>\<^sub>m blobSizes (fst y)" using h fr by (blast intro: map_le_trans)
          from a b h fr show ?thesis by blast
        next
          case False
          with run \<open>todo c \<noteq> []\<close> None q Err have "y = (c1, Err e)"
            by (simp add: Length_def Peek_def x_def)
          with fr show ?thesis by simp
        qed
      next
        case (Panic p)
        with run False None q have "y = (c1, Panic p)"
          by (simp add: Length_def Peek_def x_def)
        with fr show ?thesis by simp
      qed
    qed
  qed
qed

section \<open>Response lines\<close>

lemma ReadString_line:
  "delim \<notin> set l \<Longrightarrow> ReadString delim (l @ delim # rest) = Inr (l @ [delim], rest)"
proof -
  assume a: "delim \<notin> set l"
  then have "takeWhile (\<lambda>c. c \<noteq> delim) (l @ delim # rest) = l"
    by (induction l) auto
  moreover from a have "dropWhile (\<lambda>c. c \<noteq> delim) (l @ delim # rest) = delim # rest"
    by (induction l) auto
  ultimately show ?thesis by (simp add: ReadString_def)
qed

lemma Split_single: "sep \<notin> set w \<Longrightarrow> Split w sep = [w]"
  by (induction w) auto

lemma Split_word: "sep \<notin> set w \<Longrightarrow> Split (w @ sep # rest) sep = w # Split rest sep"
  by (induction w) auto

lemma hexDigit_in: "hexDigit n \<in> set ''0123456789abcdef''"
  unfolding hexDigit_def by (rule nth_mem) simp

lemma String_Oid_chars: "c \<in> set (String_Oid oid) \<Longrightarrow> c \<in> set ''0123456789abcdef''"
  using hexDigit_in by (auto simp: String_Oid_def)

lemma String_Oid_no_SP: "SP \<notin> set (String_Oid oid)"
  using String_Oid_chars [of SP oid] by (auto simp: SP_def)

lemma String_Oid_no_LF: "LF \<notin> set (String_Oid oid)"
  using String_Oid_chars [of LF oid] by (auto simp: LF_def)

lemma missingLine_words:
  "ReadString LF (missingLine oid) = Inr (missingLine oid, [])"
  "Split (butlast (missingLine oid)) SP = [String_Oid oid, ''missing'']"
proof -
  have "LF \<notin> set (String_Oid oid @ '' missing'')"
    using String_Oid_no_LF [of oid] by (simp add: LF_def)
  from ReadString_line [OF this, of "[]"]
  show "ReadString LF (missingLine oid) = Inr (missingLine oid, [])"
    by (simp add: missingLine_def)
  have "Split (String_Oid oid @ SP # ''missing'') SP = String_Oid oid # Split ''missing'' SP"
    by (rule Split_word [OF String_Oid_no_SP])
  then show "Split (butlast (missingLine oid)) SP = [String_Oid oid, ''missing'']"
    by (simp add: missingLine_def butlast_append SP_def)
qed

lemma ReadHeader_missingLine:
  "checkStdout repo oid = missingLine oid \<Longrightarrow> ReadHeader repo oid = Err (MissingObject oid)"
  by (simp add: ReadHeader_def missingLine_words index_def)

lemma ReadTree_missingLine:
  "batchStdout repo oid = missingLine oid \<Longrightarrow> ReadTree repo oid = Err (MissingObject oid)"
  by (simp add: ReadTree_def missingLine_words index_def)

lemma absent_not_in_tables:
  assumes "absent repo oid" "tablesFromStore repo c"
  shows "blobSizes c oid = None \<and> treeSizes c oid = None"
proof -
  from assms(1) have h: "ReadHeader repo oid = Err (MissingObject oid)"
    and t: "ReadTree repo oid = Err (MissingObject oid)"
    by (simp_all add: absent_def ReadHeader_missingLine ReadTree_missingLine)
  from h assms(2) have "blobSizes c oid = None"
    by (cases "blobSizes c oid") (auto simp: tablesFromStore_def)
  moreover from t assms(2) have "treeSizes c oid = None"
    by (cases "treeSizes c oid") (auto simp: tablesFromStore_def)
  ultimately show ?thesis by simp
qed

section \<open>The tables hold only what the store delivered\<close>

lemma tablesFromStore_New: "tablesFromStore repo NewSizeCache"
  by (simp add: tablesFromStore_def NewSizeCache_def)

lemma SizeCache_TreeSize_tables:
  assumes "SizeCache_TreeSize repo c oid = Some (c', r)" "tablesFromStore repo c"
  shows "tablesFromStore repo c'"
proof (cases "treeSizes c oid")
  case (Some s)
  with assms show ?thesis by (simp add: SizeCache_TreeSize_def)
next
  case None
  with assms(1) obtain y where f: "fill repo (c\<lparr>todo := Push oid (todo c)\<rparr>) = Some y" and "fst y = c'"
    by (auto simp: SizeCache_TreeSize_def split: option.splits prod.splits outcome.splits)
  with fill_tables [OF f] assms(2) show ?thesis by (simp add: tablesFromStore_todo)
qed

lemma SizeCache_ObjectSize_tables:
  assumes "SizeCache_ObjectSize repo c oid = Some (c', r)" "tablesFromStore repo c"
  shows "tablesFromStore repo c'"
proof (cases "ReadHeader repo oid")
  case (Ok p)
  obtain t n where p: "p = (t, n)" by (cases p)
  show ?thesis
  proof (cases "t = ''blob''")
    case True
    with assms Ok p show ?thesis
      by (auto simp: SizeCache_ObjectSize_def tablesFromStore_def split: if_splits)
  next
    case False
    show ?thesis
    proof (cases "t = ''tree''")
      case True
      with assms(1) Ok p obtain r' where "SizeCache_TreeSize repo c oid = Some (c', r')"
        by (auto simp: SizeCache_ObjectSize_def split: option.splits prod.splits outcome.splits)
      from SizeCache_TreeSize_tables [OF this assms(2)] show ?thesis .
    next
      case nt: False
      with False assms Ok p have "c' = c"
        by (auto simp: SizeCache_ObjectSize_def split: if_splits)
      with assms(2) show ?thesis by simp
    qed
  qed
next
  case (Err e)
  with assms show ?thesis by (simp add: SizeCache_ObjectSize_def)
next
  case (Panic pn)
  with assms show ?thesis by (simp add: SizeCache_ObjectSize_def)
qed

section \<open>The small store: headers and payloads\<close>

lemma ReadHeader_oF: "ReadHeader exampleRepo oF = Ok (''blob'', 10)"
  by (simp add: ReadHeader_def example_defs eval_defs)

lemma ReadHeader_oT: "ReadHeader exampleRepo oT = Ok (''tree'', 57)"
  by (simp add: ReadHeader_def example_defs eval_defs)

lemma ReadTree_oD: "ReadTree exampleRepo oD = Ok []"
  by (simp add: ReadTree_def example_defs eval_defs)

lemma ReadTree_oT: "ReadTree exampleRepo oT = Ok payloadT"
  by (simp add: ReadTree_def example_defs eval_defs)

lemma ReadTree_oA: "ReadTree exampleRepo oA = Ok payloadA"
  by (simp add: ReadTree_def example_defs eval_defs)

lemma ReadTree_oB: "ReadTree exampleRepo oB = Ok payloadB"
  by (simp add: ReadTree_def example_defs eval_defs)

lemma ReadTree_oX: "ReadTree exampleRepo oX = Ok payloadX"
  by (simp add: ReadTree_def example_defs eval_defs)

lemma ReadTree_oY: "ReadTree exampleRepo oY = Ok payloadY"
  by (simp add: ReadTree_def example_defs eval_defs)

lemma ReadTree_oP: "ReadTree exampleRepo oP = Ok payloadP"
  by (simp add: ReadTree_def example_defs eval_defs)

lemma absent_oM: "absent exampleRepo oM"
  by (simp add: absent_def missingLine_def exampleRepo_def exampleHeader_def examplePayload_def
      oT_def oF_def oD_def oA_def oB_def oX_def oY_def oM_def oG_def oH_def oP_def)

lemma tablesFromStore_cacheT: "tablesFromStore exampleRepo cacheT"
  using ReadHeader_oF ReadTree_oD ReadTree_oT
  by (auto simp: tablesFromStore_def cacheT_def split: if_splits)

lemma tablesFromStore_cacheF: "tablesFromStore exampleRepo cacheF"
  using ReadHeader_oF
  by (auto simp: tablesFromStore_def cacheF_def split: if_splits)

section \<open>Lookups of absent ids\<close>

text \<open>
  C8. For an id absent from the store, the header lookup of \<^verbatim>\<open>ObjectSize\<close> and of
  \<^verbatim>\<open>BlobSize\<close> returns the error for a missing object and hands the cache back as it
  was; neither table has an entry for the id afterwards. The cache is any cache whose
  tables were filled from this store, as every cache the program builds is.
\<close>

theorem absent_lookup_not_found:
  assumes "absent repo oid" and "tablesFromStore repo c"
  shows "SizeCache_ObjectSize repo c oid = Some (c, Err (MissingObject oid)) \<and>
         SizeCache_BlobSize repo c oid = (c, Err (MissingObject oid)) \<and>
         blobSizes c oid = None \<and> treeSizes c oid = None"
proof -
  from assms(1) have h: "ReadHeader repo oid = Err (MissingObject oid)"
    by (simp add: absent_def ReadHeader_missingLine)
  from absent_not_in_tables [OF assms]
  have n: "blobSizes c oid = None" "treeSizes c oid = None" by simp_all
  from h n show ?thesis
    by (simp add: SizeCache_ObjectSize_def SizeCache_BlobSize_def)
qed

theorem absent_lookup_not_found_witness:
  "absent exampleRepo oM \<and> tablesFromStore exampleRepo cacheT \<and>
   SizeCache_ObjectSize exampleRepo cacheT oM = Some (cacheT, Err (MissingObject oM)) \<and>
   SizeCache_BlobSize exampleRepo cacheT oM = (cacheT, Err (MissingObject oM)) \<and>
   blobSizes cacheT oM = None \<and> treeSizes cacheT oM = None"
  using absent_lookup_not_found [OF absent_oM tablesFromStore_cacheT]
    absent_oM tablesFromStore_cacheT
  by simp

section \<open>Only blobs enter the blob table\<close>

text \<open>
  C10. When the header of an id has a type other than \<^verbatim>\<open>blob\<close>, \<^verbatim>\<open>BlobSize\<close> returns
  the error that names the id and the type it found, and the cache is unchanged.
  \<^verbatim>\<open>BlobSize\<close> changes the cache only by storing, for the id asked, the size of a
  header of type \<^verbatim>\<open>blob\<close>; so a cache whose blob table holds only sizes of such
  headers stays one, under \<^verbatim>\<open>BlobSize\<close> and under \<^verbatim>\<open>ObjectSize\<close> and \<^verbatim>\<open>TreeSize\<close> as
  well, starting from the new cache.
\<close>

theorem BlobSize_caches_only_blobs:
  "(tablesFromStore repo c \<and> ReadHeader repo oid = Ok (t, n) \<and> t \<noteq> ''blob'' \<longrightarrow>
      SizeCache_BlobSize repo c oid = (c, Err (NotABlob oid t))) \<and>
   (SizeCache_BlobSize repo c oid = (c', r) \<and> c' \<noteq> c \<longrightarrow>
      (\<exists>m. ReadHeader repo oid = Ok (''blob'', m) \<and> r = Ok m \<and>
           c' = c\<lparr>blobSizes := (blobSizes c)(oid \<mapsto> m)\<rparr>)) \<and>
   (SizeCache_BlobSize repo c oid = (c', r) \<and> tablesFromStore repo c \<longrightarrow>
      tablesFromStore repo c') \<and>
   tablesFromStore repo NewSizeCache \<and>
   (SizeCache_ObjectSize repo c oid = Some (c', r') \<and> tablesFromStore repo c \<longrightarrow>
      tablesFromStore repo c') \<and>
   (SizeCache_TreeSize repo c oid = Some (c', r'') \<and> tablesFromStore repo c \<longrightarrow>
      tablesFromStore repo c')"
proof -
  have a: "SizeCache_BlobSize repo c oid = (c, Err (NotABlob oid t))"
    if "tablesFromStore repo c" "ReadHeader repo oid = Ok (t, n)" "t \<noteq> ''blob''"
  proof -
    from that have "blobSizes c oid = None"
      by (cases "blobSizes c oid") (auto simp: tablesFromStore_def)
    with that show ?thesis by (simp add: SizeCache_BlobSize_def)
  qed
  have b: "\<exists>m. ReadHeader repo oid = Ok (''blob'', m) \<and> r = Ok m \<and>
           c' = c\<lparr>blobSizes := (blobSizes c)(oid \<mapsto> m)\<rparr>"
    if "SizeCache_BlobSize repo c oid = (c', r)" "c' \<noteq> c"
    using that
    by (auto simp: SizeCache_BlobSize_def split: option.splits outcome.splits if_splits)
  from a b SizeCache_BlobSize_tables [of repo c oid c' r] tablesFromStore_New [of repo]
    SizeCache_ObjectSize_tables [of repo c oid c' r'] SizeCache_TreeSize_tables [of repo c oid c' r'']
  show ?thesis by blast
qed

section \<open>Running the loop of queueTree\<close>

lemma queueTree_loop_end:
  "NextEntry data = Inr None \<Longrightarrow> queueTree_loop repo c ok n sz data = (c, Ok (ok, n, sz))"
  by (subst queueTree_loop.simps) simp

lemma queueTree_loop_stop:
  "NextEntry data = Inl err \<Longrightarrow> queueTree_loop repo c ok n sz data = (c, Err err)"
  by (subst queueTree_loop.simps) simp

lemma queueTree_loop_step:
  "NextEntry data = Inr (Some (e, data')) \<Longrightarrow>
   queueTree_entry repo c ok sz e = (c1, Ok (ok1, sz1)) \<Longrightarrow>
   queueTree_loop repo c ok n sz data = queueTree_loop repo c1 ok1 (n + 1) sz1 data'"
  by (subst queueTree_loop.simps) simp

lemma queueTree_loop_fail:
  "NextEntry data = Inr (Some (e, data')) \<Longrightarrow>
   queueTree_entry repo c ok sz e = (c1, Err err) \<Longrightarrow>
   queueTree_loop repo c ok n sz data = (c1, Err err)"
  by (subst queueTree_loop.simps) simp

lemma NextEntry_Nil: "NextEntry [] = Inr None"
  by (simp add: NextEntry_def)

lemma queueTree_entry_tree_known:
  "isTree e \<Longrightarrow> treeSizes c (Oid e) = Some s \<Longrightarrow>
   queueTree_entry repo c ok sz e = (c, Ok (ok, if ok then addDescendent (Name e) s sz else sz))"
  by (simp add: queueTree_entry_def)

lemma queueTree_entry_tree_unknown:
  "isTree e \<Longrightarrow> treeSizes c (Oid e) = None \<Longrightarrow>
   queueTree_entry repo c ok sz e = (c\<lparr>todo := todo c @ [Oid e]\<rparr>, Ok (False, sz))"
  by (simp add: queueTree_entry_def Push_def)

lemma queueTree_entry_blob_known:
  "isBlob e \<Longrightarrow> blobSizes c (Oid e) = Some b \<Longrightarrow>
   queueTree_entry repo c ok sz e = (c, Ok (ok, if ok then addBlob (Name e) b sz else sz))"
  by (simp add: queueTree_entry_def isBlob_def)

lemma queueTree_entry_blob_fetched:
  "isBlob e \<Longrightarrow> blobSizes c (Oid e) = None \<Longrightarrow> ReadHeader repo (Oid e) = Ok (''blob'', b) \<Longrightarrow>
   queueTree_entry repo c ok sz e =
     (c\<lparr>blobSizes := (blobSizes c)(Oid e \<mapsto> b)\<rparr>, Ok (ok, addBlob (Name e) b sz))"
  by (simp add: queueTree_entry_def isBlob_def SizeCache_BlobSize_def)

lemma queueTree_entry_blob_failed:
  "isBlob e \<Longrightarrow> blobSizes c (Oid e) = None \<Longrightarrow> ReadHeader repo (Oid e) = Err err \<Longrightarrow>
   queueTree_entry repo c ok sz e = (c, Err err)"
  by (simp add: queueTree_entry_def isBlob_def SizeCache_BlobSize_def)

section \<open>The small store: decoding and sizing\<close>

lemma mode_100644: "ParseUint ''100644'' 8 32 = Inr 33188"
  by (simp add: ParseUint_def digitVal_def)

lemma mode_40000: "ParseUint ''40000'' 8 32 = Inr 16384"
  by (simp add: ParseUint_def digitVal_def)

lemma oid_lengths:
  "length oF = 20" "length oD = 20" "length oB = 20" "length oM = 20"
  by (simp_all add: oF_def oD_def oB_def oM_def)

lemma NextEntry_entryF:
  "NextEntry (encodeEntry ''100644'' ''f'' oF @ rest) = Inr (Some (entryF, rest))"
  using NextEntry_encodeEntry [OF mode_100644, of "''f''" oF rest]
  by (simp add: NUL_def oid_lengths entryF_def)

lemma NextEntry_entryD:
  "NextEntry (encodeEntry ''40000'' ''d'' oD @ rest) = Inr (Some (entryD, rest))"
  using NextEntry_encodeEntry [OF mode_40000, of "''d''" oD rest]
  by (simp add: NUL_def oid_lengths entryD_def)

lemma NextEntry_entryA:
  "NextEntry (encodeEntry ''40000'' ''a'' oB @ rest) = Inr (Some (entryA, rest))"
  using NextEntry_encodeEntry [OF mode_40000, of "''a''" oB rest]
  by (simp add: NUL_def oid_lengths entryA_def)

lemma NextEntry_entryXyz:
  "NextEntry (encodeEntry ''100644'' ''xyz'' oF @ rest) = Inr (Some (entryXyz, rest))"
  using NextEntry_encodeEntry [OF mode_100644, of "''xyz''" oF rest]
  by (simp add: NUL_def oid_lengths entryXyz_def)

lemma NextEntry_entryX:
  "NextEntry (encodeEntry ''100644'' ''x'' oF @ rest) = Inr (Some (entryX, rest))"
  using NextEntry_encodeEntry [OF mode_100644, of "''x''" oF rest]
  by (simp add: NUL_def oid_lengths entryX_def)

lemma NextEntry_entryM:
  "NextEntry (encodeEntry ''100644'' ''f'' oM @ rest) = Inr (Some (entryM, rest))"
  using NextEntry_encodeEntry [OF mode_100644, of "''f''" oM rest]
  by (simp add: NUL_def oid_lengths entryM_def)

lemma NextEntry_cut:
  "NextEntry (encodeEntry ''100644'' ''g'' ''short'') = Inl TreeEntryEndsUnexpectedly"
  using NextEntry_truncated [OF mode_100644, of "''g''" "''short''"]
  by (simp add: NUL_def)

lemma entry_kinds:
  "isBlob entryF" "isTree entryD" "isTree entryA" "isBlob entryXyz" "isBlob entryM"
  "\<not> isTree entryF" "\<not> isTree entryXyz" "\<not> isTree entryM" "isBlob entryX" "\<not> isTree entryX"
  by (simp_all add: isBlob_def isTree_def isCommit_def isSymlink_def
      entryF_def entryD_def entryA_def entryXyz_def entryM_def entryX_def)

lemma entry_fields:
  "Name entryF = ''f''" "Oid entryF = oF" "Name entryD = ''d''" "Oid entryD = oD"
  "Name entryA = ''a''" "Oid entryA = oB" "Name entryXyz = ''xyz''" "Oid entryXyz = oF"
  "Name entryM = ''f''" "Oid entryM = oM" "Name entryX = ''x''" "Oid entryX = oF"
  by (simp_all add: entryF_def entryD_def entryA_def entryXyz_def entryM_def entryX_def)

lemma entriesOf_Nil': "entriesOf [] = []"
  by (rule entriesOf_Nil [OF NextEntry_Nil])

lemma entriesOf_payloadT: "entriesOf payloadT = [entryF, entryD]"
proof -
  have "entriesOf (encodeEntry ''40000'' ''d'' oD) = [entryD]"
    using entriesOf_Cons [OF NextEntry_entryD [of "[]"]] by (simp add: entriesOf_Nil')
  then show ?thesis
    unfolding payloadT_def using entriesOf_Cons [OF NextEntry_entryF] by simp
qed

lemma queueTree_oD: "queueTree exampleRepo c oD = (c, Ok sizeD)"
  by (simp add: queueTree_def ReadTree_oD queueTree_loop_end [OF NextEntry_Nil]
       TreeSize_zero_def addCapped_def MaxUint64_def sizeD_def)

lemma queueTree_oT_first:
  "queueTree exampleRepo (NewSizeCache\<lparr>todo := [oT]\<rparr>) oT =
     (cacheF\<lparr>todo := [oT, oD]\<rparr>, Err NotYetKnown)"
proof -
  let ?c0 = "NewSizeCache\<lparr>todo := [oT]\<rparr>" and ?s0 = "TreeSize_zero\<lparr>TreeCount := 1\<rparr>"
  have e1: "queueTree_entry exampleRepo ?c0 True ?s0 entryF =
      (cacheF\<lparr>todo := [oT]\<rparr>, Ok (True, addBlob ''f'' 10 ?s0))"
    using queueTree_entry_blob_fetched [of entryF ?c0 exampleRepo 10 True ?s0]
    by (simp add: entry_kinds entry_fields ReadHeader_oF NewSizeCache_def cacheF_def)
  have e2: "queueTree_entry exampleRepo (cacheF\<lparr>todo := [oT]\<rparr>) True (addBlob ''f'' 10 ?s0) entryD =
      (cacheF\<lparr>todo := [oT, oD]\<rparr>, Ok (False, addBlob ''f'' 10 ?s0))"
    using queueTree_entry_tree_unknown [of entryD "cacheF\<lparr>todo := [oT]\<rparr>"]
    by (simp add: entry_kinds entry_fields cacheF_def)
  have "queueTree_loop exampleRepo ?c0 True 0 ?s0 payloadT =
      (cacheF\<lparr>todo := [oT, oD]\<rparr>, Ok (False, 0 + 1 + 1, addBlob ''f'' 10 ?s0))"
    unfolding payloadT_def
    by (simp only: queueTree_loop_step [OF NextEntry_entryF e1]
          queueTree_loop_step [OF NextEntry_entryD [of "[]", simplified] e2]
          queueTree_loop_end [OF NextEntry_Nil])
  then show ?thesis by (simp add: queueTree_def ReadTree_oT)
qed

lemma queueTree_oT_second:
  "queueTree exampleRepo (cacheD\<lparr>todo := [oT]\<rparr>) oT = (cacheD\<lparr>todo := [oT]\<rparr>, Ok sizeT)"
proof -
  let ?c0 = "cacheD\<lparr>todo := [oT]\<rparr>" and ?s0 = "TreeSize_zero\<lparr>TreeCount := 1\<rparr>"
  have e1: "queueTree_entry exampleRepo ?c0 True ?s0 entryF = (?c0, Ok (True, addBlob ''f'' 10 ?s0))"
    using queueTree_entry_blob_known [of entryF ?c0 10 exampleRepo True ?s0]
    by (simp add: entry_kinds entry_fields cacheD_def)
  have e2: "queueTree_entry exampleRepo ?c0 True (addBlob ''f'' 10 ?s0) entryD =
      (?c0, Ok (True, addDescendent ''d'' sizeD (addBlob ''f'' 10 ?s0)))"
    using queueTree_entry_tree_known [of entryD ?c0 sizeD exampleRepo True]
    by (simp add: entry_kinds entry_fields cacheD_def)
  have "queueTree_loop exampleRepo ?c0 True 0 ?s0 payloadT =
      (?c0, Ok (True, 0 + 1 + 1, addDescendent ''d'' sizeD (addBlob ''f'' 10 ?s0)))"
    unfolding payloadT_def
    by (simp only: queueTree_loop_step [OF NextEntry_entryF e1]
          queueTree_loop_step [OF NextEntry_entryD [of "[]", simplified] e2]
          queueTree_loop_end [OF NextEntry_Nil])
  moreover have "addDescendent ''d'' sizeD (addBlob ''f'' 10 ?s0) =
      \<lparr>MaxDepth = 1, MaxPathLength = 1, TreeCount = 2, MaxTreeEntries = 0,
       BlobCount = 1, BlobSize = 10, LinkCount = 0, SubmoduleCount = 0\<rparr>"
    by (simp add: sizeD_def addBlob_def addDescendent_def recordDepth_def
        recordPathLength_def len_def addCapped_def MaxUint64_def TreeSize_zero_def)
  ultimately show ?thesis
    by (simp add: queueTree_def ReadTree_oT sizeT_def addCapped_def MaxUint64_def)
qed

lemma fill_empty: "todo c = [] \<Longrightarrow> fill repo c = Some (c, Ok ())"
  by (subst fill.simps) (simp add: Length_def)

lemma fill_drop:
  "todo c = rest @ [x] \<Longrightarrow> treeSizes c x = Some s \<Longrightarrow> fill repo c = fill repo (c\<lparr>todo := rest\<rparr>)"
  by (subst fill.simps) (simp add: Length_def Peek_def Drop_def)

lemma fill_memoize:
  "todo c = rest @ [x] \<Longrightarrow> treeSizes c x = None \<Longrightarrow> queueTree repo c x = (c1, Ok s) \<Longrightarrow>
   fill repo c = fill repo (c1\<lparr>treeSizes := (treeSizes c1)(x \<mapsto> s), todo := Drop (todo c1)\<rparr>)"
  by (subst fill.simps) (simp add: Length_def Peek_def)

lemma fill_retry:
  "todo c = rest @ [x] \<Longrightarrow> treeSizes c x = None \<Longrightarrow> queueTree repo c x = (c1, Err NotYetKnown) \<Longrightarrow>
   fill repo c = fill repo c1"
  by (subst fill.simps) (simp add: Length_def Peek_def)

lemma fill_error:
  "todo c = rest @ [x] \<Longrightarrow> treeSizes c x = None \<Longrightarrow> queueTree repo c x = (c1, Err e) \<Longrightarrow>
   e \<noteq> NotYetKnown \<Longrightarrow> fill repo c = Some (c1, Err e)"
  by (subst fill.simps) (simp add: Length_def Peek_def)

lemma fill_oT:
  "fill exampleRepo (NewSizeCache\<lparr>todo := [oT]\<rparr>) = Some (cacheT, Ok ())"
proof -
  have s1: "fill exampleRepo (NewSizeCache\<lparr>todo := [oT]\<rparr>) =
      fill exampleRepo (cacheF\<lparr>todo := [oT, oD]\<rparr>)"
    by (rule fill_retry [where rest = "[]" and x = oT, OF _ _ queueTree_oT_first])
       (simp_all add: NewSizeCache_def)
  have "fill exampleRepo (cacheF\<lparr>todo := [oT, oD]\<rparr>) =
      fill exampleRepo (cacheF\<lparr>todo := [oT, oD]\<rparr>
        \<lparr>treeSizes := (treeSizes (cacheF\<lparr>todo := [oT, oD]\<rparr>))(oD \<mapsto> sizeD),
         todo := Drop (todo (cacheF\<lparr>todo := [oT, oD]\<rparr>))\<rparr>)"
    by (rule fill_memoize [where rest = "[oT]" and x = oD, OF _ _ queueTree_oD])
       (simp_all add: cacheF_def)
  then have s2: "fill exampleRepo (cacheF\<lparr>todo := [oT, oD]\<rparr>) =
      fill exampleRepo (cacheD\<lparr>todo := [oT]\<rparr>)"
    by (simp add: cacheF_def cacheD_def Drop_def)
  have "fill exampleRepo (cacheD\<lparr>todo := [oT]\<rparr>) =
      fill exampleRepo (cacheD\<lparr>todo := [oT]\<rparr>
        \<lparr>treeSizes := (treeSizes (cacheD\<lparr>todo := [oT]\<rparr>))(oT \<mapsto> sizeT),
         todo := Drop (todo (cacheD\<lparr>todo := [oT]\<rparr>))\<rparr>)"
    by (rule fill_memoize [where rest = "[]" and x = oT, OF _ _ queueTree_oT_second])
       (simp_all add: cacheD_def oD_def oT_def)
  then have s3: "fill exampleRepo (cacheD\<lparr>todo := [oT]\<rparr>) = fill exampleRepo cacheT"
    by (simp add: cacheD_def cacheT_def Drop_def)
  have s4: "fill exampleRepo cacheT = Some (cacheT, Ok ())"
    by (rule fill_empty) (simp add: cacheT_def)
  from s1 s2 s3 s4 show ?thesis by simp
qed

lemma TreeSize_oT:
  "SizeCache_TreeSize exampleRepo NewSizeCache oT = Some (cacheT, Ok sizeT)"
proof -
  have p: "NewSizeCache\<lparr>todo := Push oT (todo NewSizeCache)\<rparr> = NewSizeCache\<lparr>todo := [oT]\<rparr>"
    by (simp add: NewSizeCache_def Push_def)
  have n: "treeSizes NewSizeCache oT = None" by (simp add: NewSizeCache_def)
  have l: "lookupFilled cacheT oT = Ok sizeT" by (simp add: lookupFilled_def cacheT_def)
  show ?thesis
    unfolding SizeCache_TreeSize_def by (simp add: n p fill_oT l)
qed

lemma BlobSize_oF_New: "SizeCache_BlobSize exampleRepo NewSizeCache oF = (cacheF, Ok 10)"
  by (simp add: SizeCache_BlobSize_def ReadHeader_oF NewSizeCache_def cacheF_def)

lemma ObjectSize_oF_New:
  "SizeCache_ObjectSize exampleRepo NewSizeCache oF = Some (cacheF, Ok (''blob'', SizeOfBlob 10))"
  by (simp add: SizeCache_ObjectSize_def ReadHeader_oF NewSizeCache_def cacheF_def)

theorem BlobSize_caches_only_blobs_witness:
  "tablesFromStore exampleRepo cacheT \<and> ReadHeader exampleRepo oT = Ok (''tree'', 57) \<and>
   SizeCache_BlobSize exampleRepo cacheT oT = (cacheT, Err (NotABlob oT ''tree'')) \<and>
   SizeCache_BlobSize exampleRepo NewSizeCache oF = (cacheF, Ok 10) \<and> cacheF \<noteq> NewSizeCache \<and>
   ReadHeader exampleRepo oF = Ok (''blob'', 10) \<and>
   cacheF = NewSizeCache\<lparr>blobSizes := (blobSizes NewSizeCache)(oF \<mapsto> 10)\<rparr> \<and>
   tablesFromStore exampleRepo NewSizeCache \<and> tablesFromStore exampleRepo cacheF \<and>
   SizeCache_ObjectSize exampleRepo NewSizeCache oF = Some (cacheF, Ok (''blob'', SizeOfBlob 10)) \<and>
   SizeCache_TreeSize exampleRepo NewSizeCache oT = Some (cacheT, Ok sizeT)"
proof -
  have ne: "cacheF \<noteq> NewSizeCache"
  proof
    assume "cacheF = NewSizeCache"
    then have "blobSizes cacheF oF = blobSizes NewSizeCache oF" by simp
    then show False by (simp add: cacheF_def NewSizeCache_def)
  qed
  note a = BlobSize_caches_only_blobs
    [of exampleRepo cacheT oT "''tree''" 57 cacheT "Err (NotABlob oT ''tree'')"]
  note b = BlobSize_caches_only_blobs
    [of exampleRepo NewSizeCache oF _ _ cacheF "Ok 10" "Ok (''blob'', SizeOfBlob 10)"]
  note c = BlobSize_caches_only_blobs
    [of exampleRepo NewSizeCache oT _ _ cacheT _ _ "Ok sizeT"]
  from a have 1: "SizeCache_BlobSize exampleRepo cacheT oT = (cacheT, Err (NotABlob oT ''tree''))"
    using tablesFromStore_cacheT ReadHeader_oT by simp
  from b have 2: "tablesFromStore exampleRepo NewSizeCache" by blast
  from b BlobSize_oF_New ne
  have 3: "cacheF = NewSizeCache\<lparr>blobSizes := (blobSizes NewSizeCache)(oF \<mapsto> 10)\<rparr>"
    by auto
  from b BlobSize_oF_New 2 have 4: "tablesFromStore exampleRepo cacheF" by blast
  from b ObjectSize_oF_New 2 have 5: "tablesFromStore exampleRepo cacheF" by blast
  from c TreeSize_oT 2 have 6: "tablesFromStore exampleRepo cacheT" by blast
  from 1 2 3 4 6 ne ReadHeader_oT ReadHeader_oF BlobSize_oF_New ObjectSize_oF_New TreeSize_oT
  show ?thesis by simp
qed

section \<open>The lookup after the loop\<close>

text \<open>
  C6. When \<^verbatim>\<open>TreeSize\<close> has pushed an id and the loop returns without error, the table
  has a record for the id, so that the lookup after the loop finds it and \<^verbatim>\<open>TreeSize\<close>
  returns it. The other branch of that lookup, for a record that is not there, is the
  panic: it is no error value.
\<close>

theorem TreeSize_finds_record_after_fill:
  "(treeSizes c oid = None \<and> fill repo (c\<lparr>todo := Push oid (todo c)\<rparr>) = Some (cf, Ok ()) \<longrightarrow>
      (\<exists>s. treeSizes cf oid = Some s \<and> lookupFilled cf oid = Ok s \<and>
           SizeCache_TreeSize repo c oid = Some (cf, Ok s))) \<and>
   (treeSizes cf oid = None \<longrightarrow> lookupFilled cf oid = Panic QueueTreeDidntFillTree) \<and>
   (\<forall>e. lookupFilled cf oid \<noteq> Err e)"
proof -
  have "\<exists>s. treeSizes cf oid = Some s \<and> lookupFilled cf oid = Ok s \<and>
           SizeCache_TreeSize repo c oid = Some (cf, Ok s)"
    if n: "treeSizes c oid = None"
      and f: "fill repo (c\<lparr>todo := Push oid (todo c)\<rparr>) = Some (cf, Ok ())"
  proof -
    from fill_Ok_memoized [OF f] have "oid \<in> dom (treeSizes cf)"
      by (auto simp: Push_def)
    then obtain s where s: "treeSizes cf oid = Some s" by auto
    then have "lookupFilled cf oid = Ok s" by (simp add: lookupFilled_def)
    with s n f show ?thesis by (simp add: SizeCache_TreeSize_def)
  qed
  moreover have "\<forall>e. lookupFilled cf oid \<noteq> Err e"
    by (simp add: lookupFilled_def split: option.splits)
  ultimately show ?thesis by (simp add: lookupFilled_def)
qed

theorem TreeSize_finds_record_after_fill_witness:
  "treeSizes NewSizeCache oT = None \<and>
   fill exampleRepo (NewSizeCache\<lparr>todo := Push oT (todo NewSizeCache)\<rparr>) = Some (cacheT, Ok ()) \<and>
   treeSizes cacheT oT = Some sizeT \<and> lookupFilled cacheT oT = Ok sizeT \<and>
   SizeCache_TreeSize exampleRepo NewSizeCache oT = Some (cacheT, Ok sizeT) \<and>
   treeSizes cacheT oM = None \<and> lookupFilled cacheT oM = Panic QueueTreeDidntFillTree"
proof -
  have p: "NewSizeCache\<lparr>todo := Push oT (todo NewSizeCache)\<rparr> = NewSizeCache\<lparr>todo := [oT]\<rparr>"
    by (simp add: NewSizeCache_def Push_def)
  have n: "treeSizes NewSizeCache oT = None" by (simp add: NewSizeCache_def)
  have f: "fill exampleRepo (NewSizeCache\<lparr>todo := Push oT (todo NewSizeCache)\<rparr>) = Some (cacheT, Ok ())"
    by (simp add: p fill_oT)
  have t: "treeSizes cacheT oT = Some sizeT" by (simp add: cacheT_def)
  have m: "treeSizes cacheT oM = None" by (simp add: cacheT_def oM_def oT_def oD_def)
  from TreeSize_finds_record_after_fill [of NewSizeCache oT exampleRepo cacheT] n f t
  have 1: "lookupFilled cacheT oT = Ok sizeT \<and>
    SizeCache_TreeSize exampleRepo NewSizeCache oT = Some (cacheT, Ok sizeT)" by auto
  from TreeSize_finds_record_after_fill [of _ oM _ cacheT] m
  have 2: "lookupFilled cacheT oM = Panic QueueTreeDidntFillTree" by blast
  from n f t m 1 2 show ?thesis by simp
qed

section \<open>The loop ends on a finite acyclic store\<close>

lemma ReadTree_oF: "ReadTree exampleRepo oF = Err (UnexpectedTypeForObject ''blob'' oF)"
  by (simp add: ReadTree_def example_defs eval_defs)

lemma ReadTree_oG: "ReadTree exampleRepo oG = Panic IndexOutOfRange"
  by (simp add: ReadTree_def example_defs eval_defs)

lemma ReadTree_oH: "ReadTree exampleRepo oH = Err (UnexpectedTypeForObject ''blob'' oH)"
  by (simp add: ReadTree_def example_defs eval_defs)

lemma ReadTree_example_missing:
  assumes "x \<noteq> oF" "x \<noteq> oT" "x \<noteq> oD" "x \<noteq> oA" "x \<noteq> oB" "x \<noteq> oX" "x \<noteq> oY" "x \<noteq> oG" "x \<noteq> oH"
    and "x \<noteq> oP"
  shows "ReadTree exampleRepo x = Err (MissingObject x)"
proof -
  from assms have "exampleHeader x = missingLine x" "examplePayload x = []"
    by (simp_all add: exampleHeader_def examplePayload_def missingLine_def)
  then have "batchStdout exampleRepo x = missingLine x"
    by (simp add: exampleRepo_def)
  then show ?thesis by (rule ReadTree_missingLine)
qed

lemma ReadTree_example:
  assumes ok: "ReadTree exampleRepo x = Ok data"
  shows "(x = oT \<and> data = payloadT) \<or> (x = oD \<and> data = []) \<or> (x = oA \<and> data = payloadA) \<or>
         (x = oB \<and> data = payloadB) \<or> (x = oX \<and> data = payloadX) \<or> (x = oY \<and> data = payloadY) \<or>
         (x = oP \<and> data = payloadP)"
proof -
  have nf: "x \<noteq> oF" using ok ReadTree_oF by auto
  have ng: "x \<noteq> oG" using ok ReadTree_oG by auto
  have nh: "x \<noteq> oH" using ok ReadTree_oH by auto
  have "x = oT \<or> x = oD \<or> x = oA \<or> x = oB \<or> x = oX \<or> x = oY \<or> x = oP"
  proof (rule ccontr)
    assume "\<not> ?thesis"
    with nf ng nh have "ReadTree exampleRepo x = Err (MissingObject x)"
      by (intro ReadTree_example_missing) simp_all
    with ok show False by simp
  qed
  then show ?thesis
    using ok ReadTree_oT ReadTree_oD ReadTree_oA ReadTree_oB ReadTree_oX ReadTree_oY ReadTree_oP
    by (elim disjE) simp_all
qed

lemma entriesOf_payloadA: "entriesOf payloadA = [entryA]"
  unfolding payloadA_def
  using entriesOf_Cons [OF NextEntry_entryA [of "[]"]] by (simp add: entriesOf_Nil')

lemma entriesOf_payloadB: "entriesOf payloadB = [entryXyz]"
  unfolding payloadB_def
  using entriesOf_Cons [OF NextEntry_entryXyz [of "[]"]] by (simp add: entriesOf_Nil')

lemma entriesOf_payloadX: "entriesOf payloadX = [entryM]"
  unfolding payloadX_def
  using entriesOf_Cons [OF NextEntry_entryM] entriesOf_Err [OF NextEntry_cut] by simp

lemma entriesOf_payloadY: "entriesOf payloadY = [entryF]"
  unfolding payloadY_def
  using entriesOf_Cons [OF NextEntry_entryF] entriesOf_Err [OF NextEntry_cut] by simp

lemma entriesOf_payloadP: "entriesOf payloadP = [entryX]"
  unfolding payloadP_def
  using entriesOf_Cons [OF NextEntry_entryX [of "[]"]] by (simp add: entriesOf_Nil')

lemma subtrees_example: "subtrees exampleRepo = {(oD, oT), (oB, oA)}"
proof (rule set_eqI, clarify)
  fix y x
  show "(y, x) \<in> subtrees exampleRepo \<longleftrightarrow> (y, x) \<in> {(oD, oT), (oB, oA)}"
  proof
    assume "(y, x) \<in> subtrees exampleRepo"
    then obtain data e where d: "ReadTree exampleRepo x = Ok data" "e \<in> set (entriesOf data)"
      "isTree e" "Oid e = y" by (auto simp: subtrees_def)
    from ReadTree_example [OF d(1)] d(2,3,4)
    show "(y, x) \<in> {(oD, oT), (oB, oA)}"
      by (auto simp: entriesOf_payloadT entriesOf_payloadA entriesOf_payloadB entriesOf_payloadX
          entriesOf_payloadY entriesOf_payloadP entriesOf_Nil' entry_kinds entry_fields)
  next
    assume "(y, x) \<in> {(oD, oT), (oB, oA)}"
    then consider "y = oD" "x = oT" | "y = oB" "x = oA" by auto
    then show "(y, x) \<in> subtrees exampleRepo"
    proof cases
      case 1
      then show ?thesis
        unfolding subtrees_def using ReadTree_oT
        by (auto simp: entriesOf_payloadT intro!: exI [of _ payloadT] exI [of _ entryD]
            simp: entry_kinds entry_fields)
    next
      case 2
      then show ?thesis
        unfolding subtrees_def using ReadTree_oA
        by (auto simp: entriesOf_payloadA intro!: exI [of _ payloadA] exI [of _ entryA]
            simp: entry_kinds entry_fields)
    qed
  qed
qed

lemma acyclic_example: "acyclic (subtrees exampleRepo)"
proof -
  have "subtrees exampleRepo \<subseteq> measure (\<lambda>x. if x = oT \<or> x = oA then 1 else 0)"
    by (auto simp: subtrees_example oD_def oT_def oA_def oB_def)
  then have "wf (subtrees exampleRepo)" by (rule wf_subset [OF wf_measure])
  then show ?thesis by (rule wf_acyclic)
qed

text \<open>
  C5. On a store whose subtree relation is finite and acyclic \<^verbatim>\<open>fill\<close> returns, from any
  cache and any stack, and so does \<^verbatim>\<open>TreeSize\<close>. On the way, \<^verbatim>\<open>queueTree\<close> pushes only
  ids that have no record yet, and an id that is on top of the stack and has its record
  is dropped without another pass over its tree.
\<close>

theorem fill_terminates:
  "(finite (subtrees repo) \<and> acyclic (subtrees repo) \<longrightarrow>
      (\<exists>r. fill repo c = Some r) \<and> (\<exists>r. SizeCache_TreeSize repo c oid = Some r)) \<and>
   (queueTree repo c x = (c', q) \<longrightarrow>
      (\<exists>ps. todo c' = todo c @ ps \<and> (\<forall>y \<in> set ps. treeSizes c y = None))) \<and>
   (todo c = rest @ [x] \<and> treeSizes c x \<noteq> None \<longrightarrow> fill repo c = fill repo (c\<lparr>todo := rest\<rparr>))"
proof -
  have t: "(\<exists>r. fill repo c = Some r) \<and> (\<exists>r. SizeCache_TreeSize repo c oid = Some r)"
    if "finite (subtrees repo)" "acyclic (subtrees repo)"
  proof -
    from that have w: "wf (subtrees repo)" by (rule finite_acyclic_wf)
    from fill_terminates_wf [OF w] obtain r where "fill repo c = Some r" by blast
    moreover from fill_terminates_wf [OF w]
    obtain cf rf where "fill repo (c\<lparr>todo := Push oid (todo c)\<rparr>) = Some (cf, rf)" by fastforce
    then have "\<exists>r. SizeCache_TreeSize repo c oid = Some r"
      by (cases rf) (auto simp: SizeCache_TreeSize_def split: option.splits)
    ultimately show ?thesis by blast
  qed
  have p: "\<exists>ps. todo c' = todo c @ ps \<and> (\<forall>y \<in> set ps. treeSizes c y = None)"
    if "queueTree repo c x = (c', q)"
    using queueTree_frame [OF that] by blast
  have d: "fill repo c = fill repo (c\<lparr>todo := rest\<rparr>)" if "todo c = rest @ [x]" "treeSizes c x \<noteq> None"
    using that fill_drop [of c rest x] by auto
  from t p d show ?thesis by blast
qed

theorem fill_terminates_witness:
  "finite (subtrees exampleRepo) \<and> acyclic (subtrees exampleRepo) \<and>
   (\<exists>r. fill exampleRepo (NewSizeCache\<lparr>todo := [oT]\<rparr>) = Some r) \<and>
   (\<exists>r. SizeCache_TreeSize exampleRepo NewSizeCache oT = Some r) \<and>
   queueTree exampleRepo (NewSizeCache\<lparr>todo := [oT]\<rparr>) oT = (cacheF\<lparr>todo := [oT, oD]\<rparr>, Err NotYetKnown) \<and>
   todo (cacheF\<lparr>todo := [oT, oD]\<rparr>) = todo (NewSizeCache\<lparr>todo := [oT]\<rparr>) @ [oD] \<and>
   treeSizes (NewSizeCache\<lparr>todo := [oT]\<rparr>) oD = None \<and>
   todo (cacheT\<lparr>todo := [oT, oD]\<rparr>) = [oT] @ [oD] \<and> treeSizes (cacheT\<lparr>todo := [oT, oD]\<rparr>) oD \<noteq> None \<and>
   fill exampleRepo (cacheT\<lparr>todo := [oT, oD]\<rparr>) = fill exampleRepo (cacheT\<lparr>todo := [oT, oD]\<rparr>\<lparr>todo := [oT]\<rparr>)"
proof -
  have fin: "finite (subtrees exampleRepo)" by (simp add: subtrees_example)
  note acy = acyclic_example
  have td: "todo (cacheT\<lparr>todo := [oT, oD]\<rparr>) = [oT] @ [oD]" by simp
  have ts: "treeSizes (cacheT\<lparr>todo := [oT, oD]\<rparr>) oD \<noteq> None" by (simp add: cacheT_def oD_def oT_def)
  from fill_terminates [where repo = exampleRepo and c = "NewSizeCache\<lparr>todo := [oT]\<rparr>"
      and x = oT and c' = "cacheF\<lparr>todo := [oT, oD]\<rparr>" and q = "Err NotYetKnown"]
    fin acy queueTree_oT_first
  have 1: "\<exists>r. fill exampleRepo (NewSizeCache\<lparr>todo := [oT]\<rparr>) = Some r"
    and "\<exists>ps. todo (cacheF\<lparr>todo := [oT, oD]\<rparr>) = todo (NewSizeCache\<lparr>todo := [oT]\<rparr>) @ ps \<and>
      (\<forall>y \<in> set ps. treeSizes (NewSizeCache\<lparr>todo := [oT]\<rparr>) y = None)"
    by blast+
  then have 2: "todo (cacheF\<lparr>todo := [oT, oD]\<rparr>) = todo (NewSizeCache\<lparr>todo := [oT]\<rparr>) @ [oD]"
    "treeSizes (NewSizeCache\<lparr>todo := [oT]\<rparr>) oD = None"
    by (auto simp: NewSizeCache_def)
  from fill_terminates [where repo = exampleRepo and c = NewSizeCache and oid = oT] fin acy
  have 3: "\<exists>r. SizeCache_TreeSize exampleRepo NewSizeCache oT = Some r" by blast
  from fill_terminates [where repo = exampleRepo and c = "cacheT\<lparr>todo := [oT, oD]\<rparr>"
      and x = oD and rest = "[oT]"] td ts
  have 4: "fill exampleRepo (cacheT\<lparr>todo := [oT, oD]\<rparr>) =
      fill exampleRepo (cacheT\<lparr>todo := [oT, oD]\<rparr>\<lparr>todo := [oT]\<rparr>)" by blast
  from fin acy 1 2 3 4 td ts queueTree_oT_first show ?thesis by blast
qed

section \<open>A payload cut off inside an id\<close>

lemma firstError_stop: "NextEntry data = Inl err \<Longrightarrow> firstError data = Some err"
  by (subst firstError.simps) simp

lemma firstError_step:
  "NextEntry data = Inr (Some (e, data')) \<Longrightarrow> firstError data = firstError data'"
  by (subst firstError.simps) simp

lemma firstError_end: "NextEntry data = Inr None \<Longrightarrow> firstError data = None"
  by (subst firstError.simps) simp

lemma queueTree_entry_sizable:
  assumes "sizable repo c e"
  shows "\<exists>c1 ok1 sz1. queueTree_entry repo c ok sz e = (c1, Ok (ok1, sz1))"
proof (cases "isBlob e")
  case True
  show ?thesis
  proof (cases "blobSizes c (Oid e)")
    case (Some b)
    from queueTree_entry_blob_known [OF True Some] show ?thesis by blast
  next
    case None
    with assms True obtain b where "ReadHeader repo (Oid e) = Ok (''blob'', b)"
      by (auto simp: sizable_def split: outcome.splits)
    from queueTree_entry_blob_fetched [OF True None this] show ?thesis by blast
  qed
next
  case False
  then show ?thesis
    by (auto simp: queueTree_entry_def isBlob_def split: option.splits)
qed

lemma sizable_mono:
  "sizable repo c e \<Longrightarrow> blobSizes c \<subseteq>\<^sub>m blobSizes c1 \<Longrightarrow> sizable repo c1 e"
  by (auto simp: sizable_def map_le_def dom_def)

lemma queueTree_loop_firstError:
  "firstError data = Some err \<Longrightarrow> \<forall>e \<in> set (entriesOf data). sizable repo c e \<Longrightarrow>
     \<exists>c'. queueTree_loop repo c ok n sz data = (c', Err err)"
proof (induction repo c ok n sz data rule: queueTree_loop.induct)
  case (1 repo c ok n sz data)
  note fe = "1.prems"(1) and rs = "1.prems"(2)
  show ?case
  proof (cases "NextEntry data")
    case (Inl e')
    with fe have "e' = err" by (simp add: firstError_stop)
    with Inl show ?thesis by (simp add: queueTree_loop_stop)
  next
    case (Inr x)
    show ?thesis
    proof (cases x)
      case None
      with Inr fe show ?thesis by (simp add: firstError_end)
    next
      case (Some p)
      obtain e data' where p: "p = (e, data')" by (cases p)
      with Some Inr have ne: "NextEntry data = Inr (Some (e, data'))" by simp
      from rs have "sizable repo c e" by (simp add: entriesOf_Cons [OF ne])
      from queueTree_entry_sizable [OF this] obtain c1 ok1 sz1 where
        ent: "queueTree_entry repo c ok sz e = (c1, Ok (ok1, sz1))" by blast
      from queueTree_entry_frame [OF ent] have "blobSizes c \<subseteq>\<^sub>m blobSizes c1" by simp
      with rs have rs1: "\<forall>e \<in> set (entriesOf data'). sizable repo c1 e"
        by (auto simp: entriesOf_Cons [OF ne] intro: sizable_mono)
      from fe have fe1: "firstError data' = Some err" by (simp add: firstError_step [OF ne])
      from "1.IH" [OF Inr Some p [symmetric] ent [symmetric] refl refl fe1 rs1]
      show ?thesis by (simp add: queueTree_loop_step [OF ne ent])
    qed
  qed
qed

text \<open>
  C9, as the spec has it: for every payload cut off inside an id, \<^verbatim>\<open>TreeSize\<close> returns the
  decoder's error and leaves the cache as it was. The tree \<open>oX\<close> is cut off inside the id
  of its second entry; its first entry is a blob the store does not have. The loop of
  \<^verbatim>\<open>queueTree\<close> asks for that blob's size before the iterator comes to the second entry,
  so \<^verbatim>\<open>TreeSize\<close> returns the error for the missing object; and the cache it leaves is
  not the cache it was given: the id is still on the stack.
\<close>

theorem truncated_tree_other_error:
  "ReadTree exampleRepo oX = Ok payloadX \<and>
   firstError payloadX = Some TreeEntryEndsUnexpectedly \<and>
   SizeCache_TreeSize exampleRepo NewSizeCache oX =
     Some (NewSizeCache\<lparr>todo := [oX]\<rparr>, Err (MissingObject oM)) \<and>
   todo (NewSizeCache\<lparr>todo := [oX]\<rparr>) \<noteq> todo NewSizeCache"
proof -
  let ?c0 = "NewSizeCache\<lparr>todo := [oX]\<rparr>" and ?s0 = "TreeSize_zero\<lparr>TreeCount := 1\<rparr>"
  have fe: "firstError payloadX = Some TreeEntryEndsUnexpectedly"
    unfolding payloadX_def
    by (simp add: firstError_step [OF NextEntry_entryM] firstError_stop [OF NextEntry_cut])
  have h: "ReadHeader exampleRepo oM = Err (MissingObject oM)"
    using absent_oM by (simp add: absent_def ReadHeader_missingLine)
  have e1: "queueTree_entry exampleRepo ?c0 True ?s0 entryM = (?c0, Err (MissingObject oM))"
    using queueTree_entry_blob_failed [of entryM ?c0 exampleRepo "MissingObject oM" True ?s0]
    by (simp add: entry_kinds entry_fields h NewSizeCache_def)
  have "queueTree_loop exampleRepo ?c0 True 0 ?s0 payloadX = (?c0, Err (MissingObject oM))"
    unfolding payloadX_def by (rule queueTree_loop_fail [OF NextEntry_entryM e1])
  then have q: "queueTree exampleRepo ?c0 oX = (?c0, Err (MissingObject oM))"
    by (simp add: queueTree_def ReadTree_oX)
  have "fill exampleRepo ?c0 = Some (?c0, Err (MissingObject oM))"
    by (rule fill_error [where rest = "[]" and x = oX, OF _ _ q]) (simp_all add: NewSizeCache_def)
  moreover have "NewSizeCache\<lparr>todo := Push oX (todo NewSizeCache)\<rparr> = ?c0"
    by (simp add: NewSizeCache_def Push_def)
  moreover have "treeSizes NewSizeCache oX = None" by (simp add: NewSizeCache_def)
  ultimately have "SizeCache_TreeSize exampleRepo NewSizeCache oX = Some (?c0, Err (MissingObject oM))"
    by (simp add: SizeCache_TreeSize_def)
  with fe ReadTree_oX show ?thesis by (simp add: NewSizeCache_def)
qed

text \<open>
  C9, amended. Take a tree that has no record yet, whose payload the iterator reads up to
  an entry cut off inside its id, and whose blob entries before that point can be sized.
  Then \<^verbatim>\<open>TreeSize\<close> returns the decoder's error for the entry that ends unexpectedly, the
  table of tree records is as it was, and no blob size in the cache is lost or changed.
\<close>

theorem truncated_tree_FormatError:
  assumes "treeSizes c oid = None"
    and "ReadTree repo oid = Ok data"
    and "firstError data = Some TreeEntryEndsUnexpectedly"
    and "\<forall>e \<in> set (entriesOf data). sizable repo c e"
  shows "\<exists>c'. SizeCache_TreeSize repo c oid = Some (c', Err TreeEntryEndsUnexpectedly) \<and>
           treeSizes c' = treeSizes c \<and> blobSizes c \<subseteq>\<^sub>m blobSizes c'"
proof -
  let ?c0 = "c\<lparr>todo := Push oid (todo c)\<rparr>"
  have "\<forall>e \<in> set (entriesOf data). sizable repo ?c0 e"
    using assms(4) by (simp add: sizable_def)
  from queueTree_loop_firstError [OF assms(3) this]
  obtain c' where lp: "queueTree_loop repo ?c0 True 0 (TreeSize_zero\<lparr>TreeCount := 1\<rparr>) data =
      (c', Err TreeEntryEndsUnexpectedly)" by blast
  then have q: "queueTree repo ?c0 oid = (c', Err TreeEntryEndsUnexpectedly)"
    by (simp add: queueTree_def assms(2))
  have "fill repo ?c0 = Some (c', Err TreeEntryEndsUnexpectedly)"
    by (rule fill_error [where rest = "todo c" and x = oid, OF _ _ q])
       (simp_all add: Push_def assms(1))
  then have "SizeCache_TreeSize repo c oid = Some (c', Err TreeEntryEndsUnexpectedly)"
    by (simp add: SizeCache_TreeSize_def assms(1))
  moreover from queueTree_loop_frame [OF lp]
  have "treeSizes c' = treeSizes c" "blobSizes c \<subseteq>\<^sub>m blobSizes c'" by simp_all
  ultimately show ?thesis by blast
qed

theorem truncated_tree_FormatError_witness:
  "treeSizes NewSizeCache oY = None \<and> ReadTree exampleRepo oY = Ok payloadY \<and>
   firstError payloadY = Some TreeEntryEndsUnexpectedly \<and>
   entriesOf payloadY = [entryF] \<and> isBlob entryF \<and>
   ReadHeader exampleRepo (Oid entryF) = Ok (''blob'', 10) \<and>
   (\<exists>c'. SizeCache_TreeSize exampleRepo NewSizeCache oY = Some (c', Err TreeEntryEndsUnexpectedly) \<and>
         treeSizes c' = treeSizes NewSizeCache \<and> blobSizes NewSizeCache \<subseteq>\<^sub>m blobSizes c')"
proof -
  have n: "treeSizes NewSizeCache oY = None" by (simp add: NewSizeCache_def)
  have fe: "firstError payloadY = Some TreeEntryEndsUnexpectedly"
    unfolding payloadY_def
    by (simp add: firstError_step [OF NextEntry_entryF] firstError_stop [OF NextEntry_cut])
  have hd: "ReadHeader exampleRepo (Oid entryF) = Ok (''blob'', 10)"
    using ReadHeader_oF by (simp add: entry_fields)
  then have rs: "\<forall>e \<in> set (entriesOf payloadY). sizable exampleRepo NewSizeCache e"
    by (simp add: entriesOf_payloadY sizable_def)
  from truncated_tree_FormatError [OF n ReadTree_oY fe rs] n ReadTree_oY fe hd
    entriesOf_payloadY entry_kinds(1)
  show ?thesis by blast
qed

section \<open>The merge arithmetic, field by field\<close>

lemma recordDepth_fields [simp]:
  "MaxDepth (recordDepth d s) = max (MaxDepth s) d"
  "MaxPathLength (recordDepth d s) = MaxPathLength s"
  "TreeCount (recordDepth d s) = TreeCount s"
  "MaxTreeEntries (recordDepth d s) = MaxTreeEntries s"
  "BlobCount (recordDepth d s) = BlobCount s"
  "BlobSize (recordDepth d s) = BlobSize s"
  "LinkCount (recordDepth d s) = LinkCount s"
  "SubmoduleCount (recordDepth d s) = SubmoduleCount s"
  by (auto simp: recordDepth_def max_def)

lemma recordPathLength_fields [simp]:
  "MaxDepth (recordPathLength p s) = MaxDepth s"
  "MaxPathLength (recordPathLength p s) = max (MaxPathLength s) p"
  "TreeCount (recordPathLength p s) = TreeCount s"
  "MaxTreeEntries (recordPathLength p s) = MaxTreeEntries s"
  "BlobCount (recordPathLength p s) = BlobCount s"
  "BlobSize (recordPathLength p s) = BlobSize s"
  "LinkCount (recordPathLength p s) = LinkCount s"
  "SubmoduleCount (recordPathLength p s) = SubmoduleCount s"
  by (auto simp: recordPathLength_def max_def)

lemma addBlob_fields:
  "MaxDepth (addBlob name b s) = max (MaxDepth s) 1"
  "MaxPathLength (addBlob name b s) = max (MaxPathLength s) (len name)"
  "TreeCount (addBlob name b s) = TreeCount s"
  "MaxTreeEntries (addBlob name b s) = MaxTreeEntries s"
  "BlobCount (addBlob name b s) = addCapped (BlobCount s) 1"
  "BlobSize (addBlob name b s) = addCapped (BlobSize s) b"
  "LinkCount (addBlob name b s) = LinkCount s"
  "SubmoduleCount (addBlob name b s) = SubmoduleCount s"
  by (simp_all add: addBlob_def Let_def)

lemma addLink_fields:
  "MaxDepth (addLink name s) = max (MaxDepth s) 1"
  "MaxPathLength (addLink name s) = max (MaxPathLength s) (len name)"
  "TreeCount (addLink name s) = TreeCount s"
  "MaxTreeEntries (addLink name s) = MaxTreeEntries s"
  "BlobCount (addLink name s) = BlobCount s"
  "BlobSize (addLink name s) = BlobSize s"
  "LinkCount (addLink name s) = addCapped (LinkCount s) 1"
  "SubmoduleCount (addLink name s) = SubmoduleCount s"
  by (simp_all add: addLink_def Let_def)

lemma addSubmodule_fields:
  "MaxDepth (addSubmodule name s) = max (MaxDepth s) 1"
  "MaxPathLength (addSubmodule name s) = max (MaxPathLength s) (len name)"
  "TreeCount (addSubmodule name s) = TreeCount s"
  "MaxTreeEntries (addSubmodule name s) = MaxTreeEntries s"
  "BlobCount (addSubmodule name s) = BlobCount s"
  "BlobSize (addSubmodule name s) = BlobSize s"
  "LinkCount (addSubmodule name s) = LinkCount s"
  "SubmoduleCount (addSubmodule name s) = addCapped (SubmoduleCount s) 1"
  by (simp_all add: addSubmodule_def Let_def)

lemma addDescendent_fields:
  "MaxDepth (addDescendent name s2 s) = max (MaxDepth s) (MaxDepth s2)"
  "MaxPathLength (addDescendent name s2 s) =
     max (MaxPathLength s)
       (if MaxPathLength s2 > 0 then addCapped (len name + 1) (MaxPathLength s2) else len name)"
  "TreeCount (addDescendent name s2 s) = addCapped (TreeCount s) (TreeCount s2)"
  "MaxTreeEntries (addDescendent name s2 s) = max (MaxTreeEntries s) (MaxTreeEntries s2)"
  "BlobCount (addDescendent name s2 s) = addCapped (BlobCount s) (BlobCount s2)"
  "BlobSize (addDescendent name s2 s) = addCapped (BlobSize s) (BlobSize s2)"
  "LinkCount (addDescendent name s2 s) = addCapped (LinkCount s) (LinkCount s2)"
  "SubmoduleCount (addDescendent name s2 s) = addCapped (SubmoduleCount s) (SubmoduleCount s2)"
  by (auto simp: addDescendent_def Let_def max_def)

lemma finalize_fields:
  "MaxDepth (finalize n s) = addCapped (MaxDepth s) 1"
  "MaxPathLength (finalize n s) = MaxPathLength s"
  "TreeCount (finalize n s) = TreeCount s"
  "MaxTreeEntries (finalize n s) = max (MaxTreeEntries s) n"
  "BlobCount (finalize n s) = BlobCount s"
  "BlobSize (finalize n s) = BlobSize s"
  "LinkCount (finalize n s) = LinkCount s"
  "SubmoduleCount (finalize n s) = SubmoduleCount s"
  by (auto simp: finalize_def max_def)

lemma TreeSize_le_refl: "TreeSize_le s s"
  by (simp add: TreeSize_le_def)

lemma TreeSize_le_trans: "TreeSize_le a b \<Longrightarrow> TreeSize_le b c \<Longrightarrow> TreeSize_le a c"
  by (auto simp: TreeSize_le_def)

lemma merge_ops_grow:
  "TreeSize_le s (addBlob name b s)"
  "TreeSize_le s (addLink name s)"
  "TreeSize_le s (addSubmodule name s)"
  "TreeSize_le s (addDescendent name s2 s)"
  "TreeSize_le s (finalize n s)"
  by (simp_all add: TreeSize_le_def addBlob_fields addLink_fields addSubmodule_fields
      addDescendent_fields finalize_fields addCapped_ge1)

lemma mergeEntry_grows: "TreeSize_le sz (mergeEntry c sz e)"
  by (auto simp: mergeEntry_def merge_ops_grow TreeSize_le_refl split: option.splits)

lemma foldl_mergeEntry_grows: "TreeSize_le sz (foldl (mergeEntry c) sz es)"
proof (induction es arbitrary: sz)
  case Nil
  show ?case by (simp add: TreeSize_le_refl)
next
  case (Cons e es)
  from mergeEntry_grows [of sz c e] Cons [of "mergeEntry c sz e"]
  show ?case by (auto intro: TreeSize_le_trans)
qed

lemma kinds_exclusive:
  "isTree e \<Longrightarrow> \<not> isCommit e" "isTree e \<Longrightarrow> \<not> isSymlink e" "isCommit e \<Longrightarrow> \<not> isSymlink e"
  by (auto simp: isTree_def isCommit_def isSymlink_def)

section \<open>Counter updates\<close>

lemma unat_plus_of_nat:
  assumes "unat (n :: Count) + k < 2 ^ 64"
  shows "unat (n + of_nat k) = unat n + k"
proof -
  from assms have k: "k < 2 ^ 64" by simp
  then have "unat (of_nat k :: Count) = k" by (simp add: unat_of_nat)
  moreover from this assms have "unat n + unat (of_nat k :: Count) < 2 ^ LENGTH(64)" by simp
  ultimately show ?thesis using unat_add_lem [of n "of_nat k"] by simp
qed

lemma unat_len_plus_1:
  assumes "length name < 2 ^ 63"
  shows "unat (len name + 1) = length name + 1"
proof -
  have "unat (0 + of_nat (length name + 1) :: Count) = unat (0 :: Count) + (length name + 1)"
    using assms by (intro unat_plus_of_nat) simp
  then show ?thesis by (simp add: len_def add.commute)
qed

lemma queueTree_loop_payloadB:
  "queueTree_loop exampleRepo cacheF True n (TreeSize_zero\<lparr>TreeCount := 1\<rparr>) payloadB =
     (cacheF, Ok (True, n + 1, addBlob ''xyz'' 10 (TreeSize_zero\<lparr>TreeCount := 1\<rparr>)))"
proof -
  let ?s0 = "TreeSize_zero\<lparr>TreeCount := 1\<rparr>"
  have e1: "queueTree_entry exampleRepo cacheF True ?s0 entryXyz =
      (cacheF, Ok (True, addBlob ''xyz'' 10 ?s0))"
    using queueTree_entry_blob_known [of entryXyz cacheF 10 exampleRepo True ?s0]
    by (simp add: entry_kinds entry_fields cacheF_def)
  show ?thesis
    unfolding payloadB_def
    by (simp only: queueTree_loop_step [OF NextEntry_entryXyz [of "[]", simplified] e1]
          queueTree_loop_end [OF NextEntry_Nil])
qed

lemma addBlob_xyz:
  "addBlob ''xyz'' 10 (TreeSize_zero\<lparr>TreeCount := 1\<rparr>) =
     \<lparr>MaxDepth = 1, MaxPathLength = 3, TreeCount = 1, MaxTreeEntries = 0,
      BlobCount = 1, BlobSize = 10, LinkCount = 0, SubmoduleCount = 0\<rparr>"
  by (simp add: addBlob_def recordDepth_def recordPathLength_def len_def addCapped_def
      MaxUint64_def TreeSize_zero_def)

section \<open>Maxima and sums over the entries\<close>

lemma Max_insert_max:
  "finite A \<Longrightarrow> Max (insert (max a b) A) = Max (insert a (insert b A))"
  for a b :: "'a :: linorder"
  by (cases "A = {}") (simp_all add: max.assoc)

lemma foldl_Max:
  fixes F :: "'s \<Rightarrow> 'b :: linorder"
  assumes "\<And>sz e. e \<in> set es \<Longrightarrow> F (m sz e) = max (F sz) (g e)"
  shows "F (foldl m sz es) = Max (insert (F sz) (g ` set es))"
  using assms
proof (induction es arbitrary: sz)
  case Nil
  show ?case by simp
next
  case (Cons e es)
  have "F (foldl m (m sz e) es) = Max (insert (F (m sz e)) (g ` set es))"
    by (rule Cons.IH) (simp add: Cons.prems)
  also have "F (m sz e) = max (F sz) (g e)" by (simp add: Cons.prems)
  finally show ?case by (simp add: Max_insert_max)
qed

lemma addCapped_0: "addCapped n 0 = n"
  by (simp add: addCapped_def)

lemma min_cap_add:
  "min (min (a + x) c + y) c = min (a + x + y) (c :: nat)"
  by (simp add: min_def)

lemma foldl_capped_sum:
  fixes F :: "'s \<Rightarrow> Count"
  assumes "\<And>sz e. e \<in> set es \<Longrightarrow> F (m sz e) = addCapped (F sz) (g e)"
  shows "unat (F (foldl m sz es)) = min (unat (F sz) + sum_list (map (\<lambda>e. unat (g e)) es)) (2 ^ 64 - 1)"
  using assms
proof (induction es arbitrary: sz)
  case Nil
  show ?case using unat_Count_less [of "F sz"] by simp
next
  case (Cons e es)
  have "unat (F (foldl m (m sz e) es)) =
      min (unat (F (m sz e)) + sum_list (map (\<lambda>e. unat (g e)) es)) (2 ^ 64 - 1)"
    by (rule Cons.IH) (simp add: Cons.prems)
  also have "unat (F (m sz e)) = min (unat (F sz) + unat (g e)) (2 ^ 64 - 1)"
    by (simp add: Cons.prems unat_addCapped)
  finally show ?case by (simp add: min_cap_add add.assoc)
qed

lemma max_0_Count: "max (x :: Count) 0 = x"
  by (simp add: max_def)

lemma mergeEntry_MaxDepth:
  "isBlob e \<longrightarrow> blobSizes c (Oid e) \<noteq> None \<Longrightarrow>
   MaxDepth (mergeEntry c sz e) = max (MaxDepth sz) (entryDepth c e)"
  by (auto simp: mergeEntry_def entryDepth_def isBlob_def addDescendent_fields addBlob_fields
      addLink_fields addSubmodule_fields max_0_Count split: option.splits)

lemma mergeEntry_MaxTreeEntries:
  "MaxTreeEntries (mergeEntry c sz e) = max (MaxTreeEntries sz) (entryTreeEntries c e)"
  by (auto simp: mergeEntry_def entryTreeEntries_def addDescendent_fields addBlob_fields
      addLink_fields addSubmodule_fields max_0_Count split: option.splits)

lemma mergeEntry_TreeCount:
  "TreeCount (mergeEntry c sz e) =
     addCapped (TreeCount sz)
       (if isTree e then (case treeSizes c (Oid e) of Some s \<Rightarrow> TreeCount s | None \<Rightarrow> 0) else 0)"
  by (auto simp: mergeEntry_def addDescendent_fields addBlob_fields
      addLink_fields addSubmodule_fields addCapped_0 split: option.splits)

lemma mergeEntry_BlobCount:
  "isBlob e \<longrightarrow> blobSizes c (Oid e) \<noteq> None \<Longrightarrow>
   BlobCount (mergeEntry c sz e) =
     addCapped (BlobCount sz)
       (if isTree e then (case treeSizes c (Oid e) of Some s \<Rightarrow> BlobCount s | None \<Rightarrow> 0)
        else if isBlob e then 1 else 0)"
  by (auto simp: mergeEntry_def isBlob_def addDescendent_fields addBlob_fields
      addLink_fields addSubmodule_fields addCapped_0 split: option.splits)

lemma mergeEntry_LinkCount:
  "LinkCount (mergeEntry c sz e) =
     addCapped (LinkCount sz)
       (if isTree e then (case treeSizes c (Oid e) of Some s \<Rightarrow> LinkCount s | None \<Rightarrow> 0)
        else if isSymlink e then 1 else 0)"
  using kinds_exclusive [of e]
  by (auto simp: mergeEntry_def addDescendent_fields addBlob_fields
      addLink_fields addSubmodule_fields addCapped_0 split: option.splits)

lemma mergeEntry_SubmoduleCount:
  "SubmoduleCount (mergeEntry c sz e) =
     addCapped (SubmoduleCount sz)
       (if isTree e then (case treeSizes c (Oid e) of Some s \<Rightarrow> SubmoduleCount s | None \<Rightarrow> 0)
        else if isCommit e then 1 else 0)"
  using kinds_exclusive [of e]
  by (auto simp: mergeEntry_def addDescendent_fields addBlob_fields
      addLink_fields addSubmodule_fields addCapped_0 split: option.splits)

lemma sum_contributions:
  assumes "\<And>e. P e \<Longrightarrow> \<not> isTree e"
  shows "sum_list (map (\<lambda>e. unat (if isTree e then (case treeSizes c (Oid e) of Some s \<Rightarrow> field s | None \<Rightarrow> 0)
                              else if P e then 1 else (0 :: Count))) es) =
         subtreeTotal field c es + length (filter P es)"
  using assms by (induction es) (auto simp: subtreeTotal_def split: option.splits)

lemma sum_contributions_trees:
  "sum_list (map (\<lambda>e. unat (if isTree e then (case treeSizes c (Oid e) of Some s \<Rightarrow> field s | None \<Rightarrow> 0)
                              else (0 :: Count))) es) =
         subtreeTotal field c es"
  by (induction es) (auto simp: subtreeTotal_def split: option.splits)

lemma subtreeTotal_cong:
  "treeSizes c1 = treeSizes c \<Longrightarrow> subtreeTotal field c1 es = subtreeTotal field c es"
  by (simp add: subtreeTotal_def)

lemma entryDepth_cong: "treeSizes c1 = treeSizes c \<Longrightarrow> entryDepth c1 e = entryDepth c e"
  by (simp add: entryDepth_def)

lemma entryTreeEntries_cong:
  "treeSizes c1 = treeSizes c \<Longrightarrow> entryTreeEntries c1 e = entryTreeEntries c e"
  by (simp add: entryTreeEntries_def)

section \<open>The record of a tree\<close>

lemma not_tree:
  "isBlob e \<Longrightarrow> \<not> isTree e" "isSymlink e \<Longrightarrow> \<not> isTree e" "isCommit e \<Longrightarrow> \<not> isTree e"
  by (auto simp: isBlob_def isTree_def isCommit_def isSymlink_def)

lemma queueTree_record:
  assumes q: "queueTree repo c oid = (c', Ok s)" and rt: "ReadTree repo oid = Ok data"
  defines "es \<equiv> entriesOf data"
  shows "MaxDepth s = addCapped (Max (insert 0 (entryDepth c ` set es))) 1"
    and "MaxTreeEntries s = max (Max (insert 0 (entryTreeEntries c ` set es))) (of_nat (length es))"
    and "unat (TreeCount s) = min (1 + subtreeTotal TreeCount c es) (2 ^ 64 - 1)"
    and "unat (BlobCount s) = min (subtreeTotal BlobCount c es + length (filter isBlob es)) (2 ^ 64 - 1)"
    and "unat (LinkCount s) = min (subtreeTotal LinkCount c es + length (filter isSymlink es)) (2 ^ 64 - 1)"
    and "unat (SubmoduleCount s) =
           min (subtreeTotal SubmoduleCount c es + length (filter isCommit es)) (2 ^ 64 - 1)"
    and "s = finalize (of_nat (length es)) (foldl (mergeEntry c') (TreeSize_zero\<lparr>TreeCount := 1\<rparr>) es)"
    and "treeSizes c' = treeSizes c"
    and "\<forall>e \<in> set es. isBlob e \<longrightarrow> blobSizes c' (Oid e) \<noteq> None"
proof -
  let ?s0 = "TreeSize_zero\<lparr>TreeCount := 1\<rparr>"
  from queueTree_Ok [OF q] rt
  have t: "treeSizes c' = treeSizes c"
    and s: "s = finalize (of_nat (length es)) (foldl (mergeEntry c') ?s0 es)"
    and b: "\<forall>e \<in> set es. isBlob e \<longrightarrow> blobSizes c' (Oid e) \<noteq> None"
    by (auto simp: es_def)
  show "s = finalize (of_nat (length es)) (foldl (mergeEntry c') ?s0 es)" by (rule s)
  show "treeSizes c' = treeSizes c" by (rule t)
  show "\<forall>e \<in> set es. isBlob e \<longrightarrow> blobSizes c' (Oid e) \<noteq> None" by (rule b)
  have "MaxDepth (foldl (mergeEntry c') ?s0 es) = Max (insert (MaxDepth ?s0) (entryDepth c' ` set es))"
    by (rule foldl_Max) (simp add: mergeEntry_MaxDepth b)
  then show "MaxDepth s = addCapped (Max (insert 0 (entryDepth c ` set es))) 1"
    by (simp add: s finalize_fields TreeSize_zero_def entryDepth_cong [OF t])
  have "MaxTreeEntries (foldl (mergeEntry c') ?s0 es) =
      Max (insert (MaxTreeEntries ?s0) (entryTreeEntries c' ` set es))"
    by (rule foldl_Max) (simp add: mergeEntry_MaxTreeEntries)
  then show "MaxTreeEntries s =
      max (Max (insert 0 (entryTreeEntries c ` set es))) (of_nat (length es))"
    by (simp add: s finalize_fields TreeSize_zero_def entryTreeEntries_cong [OF t])
  have "unat (TreeCount (foldl (mergeEntry c') ?s0 es)) =
      min (unat (TreeCount ?s0) + sum_list (map (\<lambda>e. unat
        (if isTree e then (case treeSizes c' (Oid e) of Some s \<Rightarrow> TreeCount s | None \<Rightarrow> 0) else 0)) es))
        (2 ^ 64 - 1)"
    by (rule foldl_capped_sum) (simp add: mergeEntry_TreeCount)
  then show "unat (TreeCount s) = min (1 + subtreeTotal TreeCount c es) (2 ^ 64 - 1)"
    by (simp add: s finalize_fields sum_contributions_trees subtreeTotal_cong [OF t])
  have "unat (BlobCount (foldl (mergeEntry c') ?s0 es)) =
      min (unat (BlobCount ?s0) + sum_list (map (\<lambda>e. unat
        (if isTree e then (case treeSizes c' (Oid e) of Some s \<Rightarrow> BlobCount s | None \<Rightarrow> 0)
         else if isBlob e then 1 else 0)) es)) (2 ^ 64 - 1)"
    by (rule foldl_capped_sum) (simp add: mergeEntry_BlobCount b)
  then show "unat (BlobCount s) =
      min (subtreeTotal BlobCount c es + length (filter isBlob es)) (2 ^ 64 - 1)"
    by (simp add: s finalize_fields sum_contributions [of isBlob, OF not_tree(1)]
        subtreeTotal_cong [OF t] TreeSize_zero_def)
  have "unat (LinkCount (foldl (mergeEntry c') ?s0 es)) =
      min (unat (LinkCount ?s0) + sum_list (map (\<lambda>e. unat
        (if isTree e then (case treeSizes c' (Oid e) of Some s \<Rightarrow> LinkCount s | None \<Rightarrow> 0)
         else if isSymlink e then 1 else 0)) es)) (2 ^ 64 - 1)"
    by (rule foldl_capped_sum) (simp add: mergeEntry_LinkCount)
  then show "unat (LinkCount s) =
      min (subtreeTotal LinkCount c es + length (filter isSymlink es)) (2 ^ 64 - 1)"
    by (simp add: s finalize_fields sum_contributions [of isSymlink, OF not_tree(2)]
        subtreeTotal_cong [OF t] TreeSize_zero_def)
  have "unat (SubmoduleCount (foldl (mergeEntry c') ?s0 es)) =
      min (unat (SubmoduleCount ?s0) + sum_list (map (\<lambda>e. unat
        (if isTree e then (case treeSizes c' (Oid e) of Some s \<Rightarrow> SubmoduleCount s | None \<Rightarrow> 0)
         else if isCommit e then 1 else 0)) es)) (2 ^ 64 - 1)"
    by (rule foldl_capped_sum) (simp add: mergeEntry_SubmoduleCount)
  then show "unat (SubmoduleCount s) =
      min (subtreeTotal SubmoduleCount c es + length (filter isCommit es)) (2 ^ 64 - 1)"
    by (simp add: s finalize_fields sum_contributions [of isCommit, OF not_tree(3)]
        subtreeTotal_cong [OF t] TreeSize_zero_def)
qed

section \<open>The small store: more records\<close>

lemma queueTree_oP: "queueTree exampleRepo cacheF oP = (cacheF, Ok sizeP)"
proof -
  let ?s0 = "TreeSize_zero\<lparr>TreeCount := 1\<rparr>"
  have e1: "queueTree_entry exampleRepo cacheF True ?s0 entryX =
      (cacheF, Ok (True, addBlob ''x'' 10 ?s0))"
    using queueTree_entry_blob_known [of entryX cacheF 10 exampleRepo True ?s0]
    by (simp add: entry_kinds entry_fields cacheF_def)
  have "queueTree_loop exampleRepo cacheF True 0 ?s0 payloadP =
      (cacheF, Ok (True, 0 + 1, addBlob ''x'' 10 ?s0))"
    unfolding payloadP_def
    by (simp only: queueTree_loop_step [OF NextEntry_entryX [of "[]", simplified] e1]
          queueTree_loop_end [OF NextEntry_Nil])
  moreover have "addBlob ''x'' 10 ?s0 =
      \<lparr>MaxDepth = 1, MaxPathLength = 1, TreeCount = 1, MaxTreeEntries = 0,
       BlobCount = 1, BlobSize = 10, LinkCount = 0, SubmoduleCount = 0\<rparr>"
    by (simp add: addBlob_def recordDepth_def recordPathLength_def len_def addCapped_def
        MaxUint64_def TreeSize_zero_def)
  ultimately show ?thesis
    by (simp add: queueTree_def ReadTree_oP sizeP_def addCapped_def MaxUint64_def)
qed

lemma queueTree_oA: "queueTree exampleRepo cacheB oA = (cacheB, Ok sizeA)"
proof -
  let ?s0 = "TreeSize_zero\<lparr>TreeCount := 1\<rparr>"
  have e1: "queueTree_entry exampleRepo cacheB True ?s0 entryA =
      (cacheB, Ok (True, addDescendent ''a'' sizeB ?s0))"
    using queueTree_entry_tree_known [of entryA cacheB sizeB exampleRepo True ?s0]
    by (simp add: entry_kinds entry_fields cacheB_def)
  have "queueTree_loop exampleRepo cacheB True 0 ?s0 payloadA =
      (cacheB, Ok (True, 0 + 1, addDescendent ''a'' sizeB ?s0))"
    unfolding payloadA_def
    by (simp only: queueTree_loop_step [OF NextEntry_entryA [of "[]", simplified] e1]
          queueTree_loop_end [OF NextEntry_Nil])
  moreover have "addDescendent ''a'' sizeB ?s0 =
      \<lparr>MaxDepth = 2, MaxPathLength = 5, TreeCount = 2, MaxTreeEntries = 1,
       BlobCount = 1, BlobSize = 10, LinkCount = 0, SubmoduleCount = 0\<rparr>"
    by (simp add: sizeB_def addDescendent_def recordDepth_def recordPathLength_def len_def
        addCapped_def MaxUint64_def TreeSize_zero_def)
  ultimately show ?thesis
    by (simp add: queueTree_def ReadTree_oA sizeA_def addCapped_def MaxUint64_def)
qed

section \<open>The depth law\<close>

text \<open>
  C2. For a tree whose record \<^verbatim>\<open>queueTree\<close> computes: with no entries its depth is 1;
  with entries of which none is a subtree it is 2; with a subtree entry whose record has
  depth \<open>d\<close>, no entry bringing more, it is \<open>d + 1\<close>, the capped sum, which is the sum
  itself unless \<open>d\<close> is the largest count. For the depth is the capped sum of 1 and the
  greatest depth an entry brings, and the greatest number of entries is the maximum of
  what the subtrees bring and the number of entries of the tree itself.
\<close>

theorem depth_law:
  assumes "queueTree repo c oid = (c', Ok s)" and "ReadTree repo oid = Ok data"
  shows "(entriesOf data = [] \<longrightarrow> MaxDepth s = 1) \<and>
     (entriesOf data \<noteq> [] \<and> (\<forall>e \<in> set (entriesOf data). \<not> isTree e) \<longrightarrow> MaxDepth s = 2) \<and>
     (\<forall>e child. e \<in> set (entriesOf data) \<and> isTree e \<and> treeSizes c (Oid e) = Some child \<and>
         (\<forall>e' \<in> set (entriesOf data). entryDepth c e' \<le> MaxDepth child) \<longrightarrow>
         MaxDepth s = addCapped (MaxDepth child) 1 \<and>
         (MaxDepth child < MaxUint64 \<longrightarrow> unat (MaxDepth s) = unat (MaxDepth child) + 1)) \<and>
     MaxDepth s = addCapped (Max (insert 0 (entryDepth c ` set (entriesOf data)))) 1 \<and>
     MaxTreeEntries s =
       max (Max (insert 0 (entryTreeEntries c ` set (entriesOf data))))
           (of_nat (length (entriesOf data)))"
proof -
  let ?es = "entriesOf data"
  note d = queueTree_record(1) [OF assms] and m = queueTree_record(2) [OF assms]
  have one: "addCapped 0 1 = 1" "addCapped 1 1 = 2" by (simp_all add: addCapped_def)
  have a: "MaxDepth s = 1" if "?es = []"
    using d that by (simp add: one)
  have b: "MaxDepth s = 2" if "?es \<noteq> []" "\<forall>e \<in> set ?es. \<not> isTree e"
  proof -
    from that(1) obtain e0 where "e0 \<in> set ?es" by (cases ?es) auto
    with that(2) have "entryDepth c ` set ?es = {1}"
      by (auto simp: entryDepth_def image_iff)
    with d show ?thesis by (simp add: one)
  qed
  have c: "MaxDepth s = addCapped (MaxDepth child) 1 \<and>
         (MaxDepth child < MaxUint64 \<longrightarrow> unat (MaxDepth s) = unat (MaxDepth child) + 1)"
    if "e \<in> set ?es" "isTree e" "treeSizes c (Oid e) = Some child"
      "\<forall>e' \<in> set ?es. entryDepth c e' \<le> MaxDepth child" for e child
  proof -
    from that(1,2,3) have "MaxDepth child \<in> entryDepth c ` set ?es"
      by (force simp: entryDepth_def)
    with that(4) have "Max (insert 0 (entryDepth c ` set ?es)) = MaxDepth child"
      by (intro Max_eqI) auto
    with d have e: "MaxDepth s = addCapped (MaxDepth child) 1" by simp
    have "unat (MaxDepth s) = unat (MaxDepth child) + 1" if "MaxDepth child < MaxUint64"
    proof -
      from that have "unat (MaxDepth child) < 2 ^ 64 - 1"
        by (simp add: word_less_nat_alt MaxUint64_def)
      then show ?thesis by (simp add: e unat_addCapped)
    qed
    with e show ?thesis by simp
  qed
  from a b c d m show ?thesis by blast
qed

theorem depth_law_witness:
  "queueTree exampleRepo cacheF oD = (cacheF, Ok sizeD) \<and> ReadTree exampleRepo oD = Ok [] \<and>
   entriesOf [] = [] \<and> MaxDepth sizeD = 1 \<and>
   queueTree exampleRepo cacheF oP = (cacheF, Ok sizeP) \<and> ReadTree exampleRepo oP = Ok payloadP \<and>
   entriesOf payloadP = [entryX] \<and> \<not> isTree entryX \<and> MaxDepth sizeP = 2 \<and>
   queueTree exampleRepo (cacheD\<lparr>todo := [oT]\<rparr>) oT = (cacheD\<lparr>todo := [oT]\<rparr>, Ok sizeT) \<and>
   ReadTree exampleRepo oT = Ok payloadT \<and> entriesOf payloadT = [entryF, entryD] \<and> isTree entryD \<and>
   treeSizes (cacheD\<lparr>todo := [oT]\<rparr>) (Oid entryD) = Some sizeD \<and>
   entryDepth (cacheD\<lparr>todo := [oT]\<rparr>) entryF \<le> MaxDepth sizeD \<and>
   entryDepth (cacheD\<lparr>todo := [oT]\<rparr>) entryD \<le> MaxDepth sizeD \<and>
   MaxDepth sizeD < MaxUint64 \<and>
   MaxDepth sizeT = addCapped (MaxDepth sizeD) 1 \<and> unat (MaxDepth sizeT) = unat (MaxDepth sizeD) + 1 \<and>
   MaxTreeEntries sizeT =
     max (Max (insert 0 (entryTreeEntries (cacheD\<lparr>todo := [oT]\<rparr>) ` set (entriesOf payloadT))))
         (of_nat (length (entriesOf payloadT)))"
proof -
  let ?c = "cacheD\<lparr>todo := [oT]\<rparr>"
  have h1: "entriesOf [] = []" by (rule entriesOf_Nil')
  have h2: "entriesOf payloadP \<noteq> []" "\<forall>e \<in> set (entriesOf payloadP). \<not> isTree e"
    by (simp_all add: entriesOf_payloadP entry_kinds)
  have h3: "entryD \<in> set (entriesOf payloadT)" "isTree entryD"
    "treeSizes ?c (Oid entryD) = Some sizeD"
    by (simp_all add: entriesOf_payloadT entry_kinds entry_fields cacheD_def)
  have h4: "entryDepth ?c entryF \<le> MaxDepth sizeD" "entryDepth ?c entryD \<le> MaxDepth sizeD"
    by (simp_all add: entryDepth_def entry_kinds entry_fields cacheD_def sizeD_def)
  then have h4': "\<forall>e' \<in> set (entriesOf payloadT). entryDepth ?c e' \<le> MaxDepth sizeD"
    by (simp add: entriesOf_payloadT)
  have h5: "MaxDepth sizeD < MaxUint64" by (simp add: sizeD_def MaxUint64_def)
  from depth_law [OF queueTree_oD [of cacheF] ReadTree_oD] h1
  have 1: "MaxDepth sizeD = 1" by blast
  from depth_law [OF queueTree_oP ReadTree_oP] h2
  have 2: "MaxDepth sizeP = 2" by blast
  from depth_law [OF queueTree_oT_second ReadTree_oT] h3 h4' h5
  have 3: "MaxDepth sizeT = addCapped (MaxDepth sizeD) 1"
    "unat (MaxDepth sizeT) = unat (MaxDepth sizeD) + 1"
    "MaxTreeEntries sizeT = max (Max (insert 0 (entryTreeEntries ?c ` set (entriesOf payloadT))))
         (of_nat (length (entriesOf payloadT)))"
    by blast+
  from 1 2 3 h1 h3 h4 h5 queueTree_oD [of cacheF] ReadTree_oD queueTree_oP ReadTree_oP
    queueTree_oT_second ReadTree_oT entriesOf_payloadP entriesOf_payloadT entry_kinds(10)
  show ?thesis by blast
qed

section \<open>The path-length law\<close>

lemma unat_max_Count: "unat (max a b :: Count) = max (unat a) (unat b)"
  by (simp add: max_def word_le_nat_alt)

lemma unat_len: "length name < 2 ^ 63 \<Longrightarrow> unat (len name) = length name"
  by (simp add: len_def unat_of_nat)

text \<open>
  C3. Merging the record of a subtree under a name takes the path length to the maximum of
  what it was and, when the subtree's path length is not 0, \<open>len(name) + 1\<close> plus that
  length, the sum capped at \<open>2^64 - 1\<close>; when it is 0, \<open>len(name)\<close>. A name is a Go
  string and shorter than \<open>2^63\<close> bytes. A tree whose one entry is a blob named \<^verbatim>\<open>x\<close> has
  path length 1; a tree whose one entry is a subtree named \<^verbatim>\<open>a\<close> with a record of path
  length 3 has path length 5.
\<close>

theorem path_length_law:
  "MaxPathLength (addDescendent name child r) =
     max (MaxPathLength r)
       (if MaxPathLength child > 0 then addCapped (len name + 1) (MaxPathLength child)
        else len name) \<and>
   (length name < 2 ^ 63 \<and> MaxPathLength child > 0 \<longrightarrow>
      unat (MaxPathLength (addDescendent name child r)) =
        max (unat (MaxPathLength r))
            (min (length name + 1 + unat (MaxPathLength child)) (2 ^ 64 - 1))) \<and>
   (length name < 2 ^ 63 \<and> MaxPathLength child = 0 \<longrightarrow>
      unat (MaxPathLength (addDescendent name child r)) =
        max (unat (MaxPathLength r)) (length name)) \<and>
   (queueTree repo c oid = (c', Ok s) \<and> ReadTree repo oid = Ok data \<and> entriesOf data = [e] \<and>
    isBlob e \<and> Name e = ''x'' \<longrightarrow> MaxPathLength s = 1) \<and>
   (queueTree repo c oid = (c', Ok s) \<and> ReadTree repo oid = Ok data \<and> entriesOf data = [e] \<and>
    isTree e \<and> Name e = ''a'' \<and> treeSizes c (Oid e) = Some sub \<and> MaxPathLength sub = 3 \<longrightarrow>
      MaxPathLength s = 5)"
proof -
  have a: "unat (MaxPathLength (addDescendent name child r)) =
        max (unat (MaxPathLength r))
            (min (length name + 1 + unat (MaxPathLength child)) (2 ^ 64 - 1))"
    if "length name < 2 ^ 63" "MaxPathLength child > 0"
    using that
    by (simp add: addDescendent_fields unat_max_Count unat_addCapped unat_len_plus_1)
  have b: "unat (MaxPathLength (addDescendent name child r)) =
        max (unat (MaxPathLength r)) (length name)"
    if "length name < 2 ^ 63" "MaxPathLength child = 0"
    using that by (simp add: addDescendent_fields unat_max_Count unat_len)
  have x: "MaxPathLength s = 1"
    if q: "queueTree repo c oid = (c', Ok s)" and rt: "ReadTree repo oid = Ok data"
      and es: "entriesOf data = [e]" and k: "isBlob e" "Name e = ''x''"
  proof -
    from queueTree_record(9) [OF q rt] es k obtain b where "blobSizes c' (Oid e) = Some b"
      by auto
    with queueTree_record(7) [OF q rt] es k show ?thesis
      by (simp add: finalize_fields mergeEntry_def isBlob_def addBlob_fields len_def
          TreeSize_zero_def)
  qed
  have y: "MaxPathLength s = 5"
    if q: "queueTree repo c oid = (c', Ok s)" and rt: "ReadTree repo oid = Ok data"
      and es: "entriesOf data = [e]" and k: "isTree e" "Name e = ''a''"
      and sub: "treeSizes c (Oid e) = Some sub" "MaxPathLength sub = 3"
  proof -
    from queueTree_record(8) [OF q rt] sub have "treeSizes c' (Oid e) = Some sub" by simp
    with queueTree_record(7) [OF q rt] es k sub show ?thesis
      by (simp add: finalize_fields mergeEntry_def addDescendent_fields len_def
          TreeSize_zero_def addCapped_def)
  qed
  from a b x y addDescendent_fields(2) [of name child r] show ?thesis by blast
qed

theorem path_length_law_witness:
  "length ''a'' < (2 :: nat) ^ 63 \<and> MaxPathLength sizeB > 0 \<and>
   unat (MaxPathLength (addDescendent ''a'' sizeB TreeSize_zero)) = 5 \<and>
   length ''d'' < (2 :: nat) ^ 63 \<and> MaxPathLength sizeD = 0 \<and>
   unat (MaxPathLength (addDescendent ''d'' sizeD TreeSize_zero)) = 1 \<and>
   queueTree exampleRepo cacheF oP = (cacheF, Ok sizeP) \<and> ReadTree exampleRepo oP = Ok payloadP \<and>
   entriesOf payloadP = [entryX] \<and> isBlob entryX \<and> Name entryX = ''x'' \<and> MaxPathLength sizeP = 1 \<and>
   queueTree exampleRepo cacheB oA = (cacheB, Ok sizeA) \<and> ReadTree exampleRepo oA = Ok payloadA \<and>
   entriesOf payloadA = [entryA] \<and> isTree entryA \<and> Name entryA = ''a'' \<and>
   treeSizes cacheB (Oid entryA) = Some sizeB \<and> MaxPathLength sizeB = 3 \<and> MaxPathLength sizeA = 5"
proof -
  have h1: "length ''a'' < (2 :: nat) ^ 63" "MaxPathLength sizeB > 0" "MaxPathLength sizeB = 3"
    by (simp_all add: sizeB_def)
  have h2: "length ''d'' < (2 :: nat) ^ 63" "MaxPathLength sizeD = 0"
    by (simp_all add: sizeD_def)
  have h3: "isBlob entryX" "Name entryX = ''x''" "isTree entryA" "Name entryA = ''a''"
    "treeSizes cacheB (Oid entryA) = Some sizeB"
    by (simp_all add: entry_kinds entry_fields cacheB_def)
  from path_length_law [where name = "''a''" and child = sizeB and r = TreeSize_zero] h1(1,2)
  have "unat (MaxPathLength (addDescendent ''a'' sizeB TreeSize_zero)) =
      max (unat (MaxPathLength TreeSize_zero))
          (min (length ''a'' + 1 + unat (MaxPathLength sizeB)) (2 ^ 64 - 1))"
    by blast
  then have 1: "unat (MaxPathLength (addDescendent ''a'' sizeB TreeSize_zero)) = 5"
    by (simp add: TreeSize_zero_def sizeB_def)
  from path_length_law [where name = "''d''" and child = sizeD and r = TreeSize_zero] h2
  have "unat (MaxPathLength (addDescendent ''d'' sizeD TreeSize_zero)) =
      max (unat (MaxPathLength TreeSize_zero)) (length ''d'')"
    by blast
  then have 2: "unat (MaxPathLength (addDescendent ''d'' sizeD TreeSize_zero)) = 1"
    by (simp add: TreeSize_zero_def)
  from path_length_law [where repo = exampleRepo and c = cacheF and oid = oP and c' = cacheF
      and s = sizeP and data = payloadP and e = entryX]
    queueTree_oP ReadTree_oP entriesOf_payloadP h3
  have 3: "MaxPathLength sizeP = 1" by blast
  from path_length_law [where repo = exampleRepo and c = cacheB and oid = oA and c' = cacheB
      and s = sizeA and data = payloadA and e = entryA and sub = sizeB]
    queueTree_oA ReadTree_oA entriesOf_payloadA h3 h1
  have 4: "MaxPathLength sizeA = 5" by blast
  from 1 2 3 4 h1 h2 h3 queueTree_oP ReadTree_oP entriesOf_payloadP queueTree_oA ReadTree_oA
    entriesOf_payloadA
  show ?thesis by blast
qed

section \<open>Count conservation\<close>

text \<open>
  C4. For a tree whose record \<^verbatim>\<open>queueTree\<close> computes: the tree count is 1 plus the sum of
  the tree counts of the records of its subtree entries; the blob, link and submodule
  counts are the sum of that count over those records plus the number of the tree's own
  blob, link and submodule entries; each when the sum is below \<open>2^64\<close>. In general each
  count is the sum capped at \<open>2^64 - 1\<close>.
\<close>

theorem count_conservation:
  assumes "queueTree repo c oid = (c', Ok s)" and "ReadTree repo oid = Ok data"
  shows
   "(1 + subtreeTotal TreeCount c (entriesOf data) < 2 ^ 64 \<longrightarrow>
       unat (TreeCount s) = 1 + subtreeTotal TreeCount c (entriesOf data)) \<and>
    (subtreeTotal BlobCount c (entriesOf data) + length (filter isBlob (entriesOf data)) < 2 ^ 64 \<longrightarrow>
       unat (BlobCount s) =
         subtreeTotal BlobCount c (entriesOf data) + length (filter isBlob (entriesOf data))) \<and>
    (subtreeTotal LinkCount c (entriesOf data) + length (filter isSymlink (entriesOf data)) < 2 ^ 64 \<longrightarrow>
       unat (LinkCount s) =
         subtreeTotal LinkCount c (entriesOf data) + length (filter isSymlink (entriesOf data))) \<and>
    (subtreeTotal SubmoduleCount c (entriesOf data) + length (filter isCommit (entriesOf data)) < 2 ^ 64 \<longrightarrow>
       unat (SubmoduleCount s) =
         subtreeTotal SubmoduleCount c (entriesOf data) + length (filter isCommit (entriesOf data))) \<and>
    unat (TreeCount s) = min (1 + subtreeTotal TreeCount c (entriesOf data)) (2 ^ 64 - 1) \<and>
    unat (BlobCount s) =
      min (subtreeTotal BlobCount c (entriesOf data) + length (filter isBlob (entriesOf data)))
          (2 ^ 64 - 1) \<and>
    unat (LinkCount s) =
      min (subtreeTotal LinkCount c (entriesOf data) + length (filter isSymlink (entriesOf data)))
          (2 ^ 64 - 1) \<and>
    unat (SubmoduleCount s) =
      min (subtreeTotal SubmoduleCount c (entriesOf data) + length (filter isCommit (entriesOf data)))
          (2 ^ 64 - 1)"
  using queueTree_record(3) [OF assms] queueTree_record(4) [OF assms]
    queueTree_record(5) [OF assms] queueTree_record(6) [OF assms]
  by simp

theorem count_conservation_witness:
  "queueTree exampleRepo (cacheD\<lparr>todo := [oT]\<rparr>) oT = (cacheD\<lparr>todo := [oT]\<rparr>, Ok sizeT) \<and>
   ReadTree exampleRepo oT = Ok payloadT \<and>
   subtreeTotal TreeCount (cacheD\<lparr>todo := [oT]\<rparr>) (entriesOf payloadT) = 1 \<and>
   subtreeTotal BlobCount (cacheD\<lparr>todo := [oT]\<rparr>) (entriesOf payloadT) = 0 \<and>
   length (filter isBlob (entriesOf payloadT)) = 1 \<and>
   unat (TreeCount sizeT) = 1 + subtreeTotal TreeCount (cacheD\<lparr>todo := [oT]\<rparr>) (entriesOf payloadT) \<and>
   unat (BlobCount sizeT) =
     subtreeTotal BlobCount (cacheD\<lparr>todo := [oT]\<rparr>) (entriesOf payloadT) +
     length (filter isBlob (entriesOf payloadT)) \<and>
   unat (LinkCount sizeT) =
     subtreeTotal LinkCount (cacheD\<lparr>todo := [oT]\<rparr>) (entriesOf payloadT) +
     length (filter isSymlink (entriesOf payloadT)) \<and>
   unat (SubmoduleCount sizeT) =
     subtreeTotal SubmoduleCount (cacheD\<lparr>todo := [oT]\<rparr>) (entriesOf payloadT) +
     length (filter isCommit (entriesOf payloadT))"
proof -
  let ?c = "cacheD\<lparr>todo := [oT]\<rparr>"
  have k: "\<not> isSymlink entryF" "\<not> isSymlink entryD" "\<not> isCommit entryF" "\<not> isCommit entryD"
    by (simp_all add: isSymlink_def isCommit_def entryF_def entryD_def)
  have t: "subtreeTotal TreeCount ?c (entriesOf payloadT) = 1"
    "subtreeTotal BlobCount ?c (entriesOf payloadT) = 0"
    "subtreeTotal LinkCount ?c (entriesOf payloadT) = 0"
    "subtreeTotal SubmoduleCount ?c (entriesOf payloadT) = 0"
    by (simp_all add: subtreeTotal_def entriesOf_payloadT entry_kinds entry_fields cacheD_def
        sizeD_def)
  have n: "length (filter isBlob (entriesOf payloadT)) = 1"
    "length (filter isSymlink (entriesOf payloadT)) = 0"
    "length (filter isCommit (entriesOf payloadT)) = 0"
    using not_tree(1) [of entryD]
    by (auto simp: entriesOf_payloadT entry_kinds k)
  from count_conservation [OF queueTree_oT_second ReadTree_oT] t n
  have "unat (TreeCount sizeT) = 1 + subtreeTotal TreeCount ?c (entriesOf payloadT)"
    "unat (BlobCount sizeT) =
       subtreeTotal BlobCount ?c (entriesOf payloadT) + length (filter isBlob (entriesOf payloadT))"
    "unat (LinkCount sizeT) =
       subtreeTotal LinkCount ?c (entriesOf payloadT) + length (filter isSymlink (entriesOf payloadT))"
    "unat (SubmoduleCount sizeT) =
       subtreeTotal SubmoduleCount ?c (entriesOf payloadT) + length (filter isCommit (entriesOf payloadT))"
    by simp_all
  with t n queueTree_oT_second ReadTree_oT show ?thesis by blast
qed

section \<open>Counter updates in a run\<close>

lemma ReadTree_Ok_length: "ReadTree repo oid = Ok data \<Longrightarrow> length data < 2 ^ 63"
proof -
  assume ok: "ReadTree repo oid = Ok data"
  then obtain k rest where d: "data = butlast (take k rest)" and k: "\<not> 2 ^ 63 \<le> k"
    by (auto simp: ReadTree_def split: sum.splits prod.splits option.splits if_splits)
  have "length data \<le> k" by (simp add: d)
  with k show ?thesis by simp
qed

lemma length_entriesOf: "length (entriesOf data) \<le> length data"
proof (induction data rule: entriesOf.induct)
  case (1 data)
  show ?case
  proof (cases "NextEntry data")
    case (Inl err)
    then show ?thesis by (simp add: entriesOf_Err)
  next
    case (Inr x)
    show ?thesis
    proof (cases x)
      case None
      with Inr show ?thesis by (simp add: entriesOf_Nil)
    next
      case (Some p)
      obtain e data' where p: "p = (e, data')" by (cases p)
      with Some Inr have ne: "NextEntry data = Inr (Some (e, data'))" by simp
      from "1.IH" [OF Inr Some p [symmetric]] NextEntry_shorter [OF ne]
      show ?thesis by (simp add: entriesOf_Cons [OF ne])
    qed
  qed
qed

lemma unat_count_up:
  "unat (foldl (\<lambda>n entry. addCapped n 1) a es) = min (unat a + length es) (2 ^ 64 - 1)"
proof (induction es arbitrary: a)
  case Nil
  show ?case using unat_Count_less [of a] by simp
next
  case (Cons e es)
  show ?case by (simp add: Cons.IH unat_addCapped min_def)
qed

lemma count_up_eq:
  assumes "length es < 2 ^ 63"
  shows "of_nat (length es) = foldl (\<lambda>n entry. addCapped n 1) (0 :: Count) es"
    and "unat (foldl (\<lambda>n entry. addCapped n 1) (0 :: Count) es) = length es"
proof -
  from assms show u: "unat (foldl (\<lambda>n entry. addCapped n 1) (0 :: Count) es) = length es"
    by (simp add: unat_count_up)
  from assms have "unat (of_nat (length es) :: Count) = length es"
    by (simp add: unat_of_nat)
  with u show "of_nat (length es) = foldl (\<lambda>n entry. addCapped n 1) (0 :: Count) es"
    by (simp add: word_unat_eq_iff)
qed

lemma plain_increment_saturates:
  "n \<noteq> MaxUint64 \<Longrightarrow> n + 1 = addCapped n 1"
proof -
  assume "n \<noteq> MaxUint64"
  then have "unat n \<noteq> 2 ^ 64 - 1" by (simp add: word_unat_eq_iff MaxUint64_def)
  with unat_Count_less [of n] have "unat n + 1 < 2 ^ 64" by simp
  then have "unat (n + 1) = unat n + 1" by (simp add: unat_plus_if')
  moreover from \<open>unat n + 1 < 2 ^ 64\<close> have "unat (addCapped n 1) = unat n + 1"
    by (simp add: unat_addCapped)
  ultimately show ?thesis by (simp add: word_unat_eq_iff)
qed

text \<open>
  C1. \<^verbatim>\<open>addCapped\<close> saturates: its result is the sum when that is below \<open>2^64\<close> and
  \<open>2^64 - 1\<close> otherwise, so it is never below either operand; merging an entry into a
  size and finishing a size lower none of the eight counters. The two additions the
  program writes with a plain \<open>+\<close> saturate as well wherever it makes them. A payload
  that \<^verbatim>\<open>ReadTree\<close> returns is shorter than \<open>2^63\<close> bytes and has no more entries than
  bytes, so in every run of \<^verbatim>\<open>queueTree\<close> the count of direct entries that is folded into
  \<^verbatim>\<open>MaxTreeEntries\<close> is the count that capped increments from 0 give, and it is the number
  of entries; and \<^verbatim>\<open>len(filename) + 1\<close> is the capped sum for a name shorter than \<open>2^63\<close>
  bytes, as every Go string is.
\<close>

theorem counter_updates_saturate:
  "unat (addCapped n1 n2) = min (unat n1 + unat n2) (2 ^ 64 - 1) \<and>
   n1 \<le> addCapped n1 n2 \<and> n2 \<le> addCapped n1 n2 \<and>
   TreeSize_le sz (mergeEntry c sz e) \<and> TreeSize_le sz (finalize n sz) \<and>
   (n \<noteq> MaxUint64 \<longrightarrow> n + 1 = addCapped n 1) \<and>
   (queueTree repo c oid = (c', Ok s) \<longrightarrow>
      (\<exists>data. ReadTree repo oid = Ok data \<and> length (entriesOf data) < 2 ^ 63 \<and>
         MaxTreeEntries s =
           max (Max (insert 0 (entryTreeEntries c ` set (entriesOf data))))
               (foldl (\<lambda>n entry. addCapped n 1) 0 (entriesOf data)) \<and>
         unat (foldl (\<lambda>n entry. addCapped n 1) (0 :: Count) (entriesOf data)) =
           length (entriesOf data))) \<and>
   (ReadTree repo oid = Ok data \<and>
    queueTree_loop repo c ok 0 sz data = (c', Ok (ok', n', sz')) \<longrightarrow>
      n' = foldl (\<lambda>n entry. addCapped n 1) 0 (entriesOf data) \<and>
      unat n' = length (entriesOf data) \<and> (ok' \<longrightarrow> TreeSize_le sz sz')) \<and>
   (length name < 2 ^ 63 \<longrightarrow>
      len name + 1 = addCapped (len name) 1 \<and> unat (len name + 1) = length name + 1)"
proof -
  have small: "length (entriesOf d) < 2 ^ 63" if "ReadTree repo oid = Ok d" for d
    using ReadTree_Ok_length [OF that] length_entriesOf [of d] by simp
  have q: "\<exists>data. ReadTree repo oid = Ok data \<and> length (entriesOf data) < 2 ^ 63 \<and>
         MaxTreeEntries s =
           max (Max (insert 0 (entryTreeEntries c ` set (entriesOf data))))
               (foldl (\<lambda>n entry. addCapped n 1) 0 (entriesOf data)) \<and>
         unat (foldl (\<lambda>n entry. addCapped n 1) (0 :: Count) (entriesOf data)) =
           length (entriesOf data)"
    if run: "queueTree repo c oid = (c', Ok s)"
  proof -
    from queueTree_Ok [OF run] obtain d where rt: "ReadTree repo oid = Ok d" by blast
    note sm = small [OF rt]
    from queueTree_record(2) [OF run rt] count_up_eq [OF sm] sm rt
    show ?thesis by auto
  qed
  have lp: "n' = foldl (\<lambda>n entry. addCapped n 1) 0 (entriesOf data) \<and>
      unat n' = length (entriesOf data) \<and> (ok' \<longrightarrow> TreeSize_le sz sz')"
    if rt: "ReadTree repo oid = Ok data"
      and run: "queueTree_loop repo c ok 0 sz data = (c', Ok (ok', n', sz'))"
  proof -
    from queueTree_loop_Ok [OF run]
    have a: "n' = of_nat (length (entriesOf data))"
      and b: "ok' \<longrightarrow> sz' = foldl (mergeEntry c') sz (entriesOf data)" by simp_all
    from b have "ok' \<longrightarrow> TreeSize_le sz sz'" by (auto simp: foldl_mergeEntry_grows)
    with a count_up_eq [OF small [OF rt]] show ?thesis by simp
  qed
  have nm: "len name + 1 = addCapped (len name) 1 \<and> unat (len name + 1) = length name + 1"
    if l: "length name < 2 ^ 63"
  proof -
    from l have "unat (len name) = length name" by (rule unat_len)
    with l have "len name \<noteq> MaxUint64" by (auto simp: MaxUint64_def)
    from plain_increment_saturates [OF this] unat_len_plus_1 [OF l] show ?thesis by simp
  qed
  show ?thesis
    using unat_addCapped [of n1 n2] addCapped_ge1 [of n1 n2] addCapped_ge2 [of n2 n1]
      mergeEntry_grows [of sz c e] merge_ops_grow(5) [of sz n]
      plain_increment_saturates [of n] q lp nm
    by blast
qed

lemma queueTree_loop_payloadP:
  "queueTree_loop exampleRepo cacheF True 0 (TreeSize_zero\<lparr>TreeCount := 1\<rparr>) payloadP =
     (cacheF, Ok (True, 1, addBlob ''x'' 10 (TreeSize_zero\<lparr>TreeCount := 1\<rparr>)))"
proof -
  let ?s0 = "TreeSize_zero\<lparr>TreeCount := 1\<rparr>"
  have e1: "queueTree_entry exampleRepo cacheF True ?s0 entryX =
      (cacheF, Ok (True, addBlob ''x'' 10 ?s0))"
    using queueTree_entry_blob_known [of entryX cacheF 10 exampleRepo True ?s0]
    by (simp add: entry_kinds entry_fields cacheF_def)
  have "queueTree_loop exampleRepo cacheF True 0 ?s0 payloadP =
      (cacheF, Ok (True, 0 + 1, addBlob ''x'' 10 ?s0))"
    unfolding payloadP_def
    by (simp only: queueTree_loop_step [OF NextEntry_entryX [of "[]", simplified] e1]
          queueTree_loop_end [OF NextEntry_Nil])
  then show ?thesis by simp
qed

theorem counter_updates_saturate_witness:
  "unat (addCapped MaxUint64 5) = 2 ^ 64 - 1 \<and> unat (addCapped 3 4) = 7 \<and>
   (7 :: Count) \<noteq> MaxUint64 \<and> (7 :: Count) + 1 = addCapped 7 1 \<and>
   queueTree exampleRepo cacheF oP = (cacheF, Ok sizeP) \<and>
   ReadTree exampleRepo oP = Ok payloadP \<and> length (entriesOf payloadP) < 2 ^ 63 \<and>
   MaxTreeEntries sizeP =
     max (Max (insert 0 (entryTreeEntries cacheF ` set (entriesOf payloadP))))
         (foldl (\<lambda>n entry. addCapped n 1) 0 (entriesOf payloadP)) \<and>
   unat (foldl (\<lambda>n entry. addCapped n 1) (0 :: Count) (entriesOf payloadP)) =
     length (entriesOf payloadP) \<and>
   queueTree_loop exampleRepo cacheF True 0 (TreeSize_zero\<lparr>TreeCount := 1\<rparr>) payloadP =
     (cacheF, Ok (True, 1, addBlob ''x'' 10 (TreeSize_zero\<lparr>TreeCount := 1\<rparr>))) \<and>
   (1 :: Count) = foldl (\<lambda>n entry. addCapped n 1) 0 (entriesOf payloadP) \<and>
   unat (1 :: Count) = length (entriesOf payloadP) \<and>
   TreeSize_le (TreeSize_zero\<lparr>TreeCount := 1\<rparr>) (addBlob ''x'' 10 (TreeSize_zero\<lparr>TreeCount := 1\<rparr>)) \<and>
   length ''xyz'' < (2 :: nat) ^ 63 \<and> len ''xyz'' + 1 = addCapped (len ''xyz'') 1 \<and>
   unat (len ''xyz'' + 1) = length ''xyz'' + 1"
proof -
  let ?s0 = "TreeSize_zero\<lparr>TreeCount := 1\<rparr>"
  have ne: "(7 :: Count) \<noteq> MaxUint64" by (simp add: MaxUint64_def)
  have nm: "length ''xyz'' < (2 :: nat) ^ 63" by simp
  from counter_updates_saturate [where ?n1.0 = MaxUint64 and ?n2.0 = 5]
  have 1: "unat (addCapped MaxUint64 5) = 2 ^ 64 - 1" by (simp add: MaxUint64_def)
  from counter_updates_saturate [where ?n1.0 = 3 and ?n2.0 = 4]
  have 2: "unat (addCapped 3 4) = 7" by simp
  from counter_updates_saturate [where n = 7] ne
  have 3: "(7 :: Count) + 1 = addCapped 7 1" by blast
  from counter_updates_saturate [where repo = exampleRepo and c = cacheF and oid = oP
      and c' = cacheF and s = sizeP] queueTree_oP
  obtain d where d: "ReadTree exampleRepo oP = Ok d" "length (entriesOf d) < 2 ^ 63"
    "MaxTreeEntries sizeP = max (Max (insert 0 (entryTreeEntries cacheF ` set (entriesOf d))))
         (foldl (\<lambda>n entry. addCapped n 1) 0 (entriesOf d))"
    "unat (foldl (\<lambda>n entry. addCapped n 1) (0 :: Count) (entriesOf d)) = length (entriesOf d)"
    by blast
  from d(1) ReadTree_oP have dp: "d = payloadP" by simp
  from counter_updates_saturate [where repo = exampleRepo and c = cacheF and oid = oP
      and data = payloadP and ok = True and sz = ?s0 and c' = cacheF and ok' = True
      and n' = 1 and sz' = "addBlob ''x'' 10 ?s0" and name = "''xyz''"]
    ReadTree_oP queueTree_loop_payloadP nm
  have 4: "(1 :: Count) = foldl (\<lambda>n entry. addCapped n 1) 0 (entriesOf payloadP)"
    "unat (1 :: Count) = length (entriesOf payloadP)"
    "TreeSize_le ?s0 (addBlob ''x'' 10 ?s0)"
    "len ''xyz'' + 1 = addCapped (len ''xyz'') 1" "unat (len ''xyz'' + 1) = length ''xyz'' + 1"
    by blast+
  from 1 2 3 4 ne nm d [unfolded dp] queueTree_oP ReadTree_oP queueTree_loop_payloadP
  show ?thesis by blast
qed

end
